theory Spec2Isabelle
  imports Main "HOL-Library.Sublist"
begin

section \<open>Python strings\<close>

text \<open>
  A Python \<^verbatim>\<open>str\<close> is a sequence of Unicode code points. A code point is modelled as a
  natural number and a string as a list of them, so that the whitespace class of the
  \<^verbatim>\<open>re\<close> module, which reaches beyond Latin-1, can be written down in full.
  \<open>ustr\<close> turns a literal of the theory into such a string.
\<close>

type_synonym codepoint = nat
type_synonym str = "codepoint list"

definition ustr :: "string \<Rightarrow> str" where
  "ustr s = map of_char s"

text \<open>
  \<^verbatim>\<open>\s\<close> in a \<^verbatim>\<open>str\<close> pattern matches the characters for which \<^verbatim>\<open>str.isspace()\<close> holds:
  U+0009..U+000D, U+001C..U+0020, U+0085, U+00A0, U+1680, U+2000..U+200A, U+2028, U+2029,
  U+202F, U+205F and U+3000.
\<close>

definition is_space :: "codepoint \<Rightarrow> bool" where
  "is_space c \<longleftrightarrow>
     (9 \<le> c \<and> c \<le> 13) \<or> (28 \<le> c \<and> c \<le> 32) \<or> c = 133 \<or> c = 160 \<or> c = 5760 \<or>
     (8192 \<le> c \<and> c \<le> 8202) \<or> c = 8232 \<or> c = 8233 \<or> c = 8239 \<or> c = 8287 \<or> c = 12288"

definition LF :: codepoint where
  "LF = 10"

definition CR :: codepoint where
  "CR = 13"


section \<open>The pattern \<^verbatim>\<open>DIRECTIVE_RE\<close>\<close>

text \<open>
  The source compiles, with \<^verbatim>\<open>re.VERBOSE | re.DOTALL\<close>,
  \<^verbatim>\<open>
      (?P<before>
          \s*\.\.\s+
          (version(added|changed|removed)|deprecated(-removed)?)
          \s*::\s*
      )
      next
      (?P<after>
          .*
      )
  \<close>
  Under \<^verbatim>\<open>re.VERBOSE\<close> the layout of the pattern is not part of it; under \<^verbatim>\<open>re.DOTALL\<close> the
  dot matches every character, the newline too. The operators the pattern uses are the
  constructors of \<open>rexp\<close>, and \<open>rmatch r xs\<close> says that \<open>r\<close> matches the whole of \<open>xs\<close>.
\<close>

datatype rexp =
    RLit str
  | RSpace
  | RAny
  | RSeq rexp rexp
  | RAlt rexp rexp
  | RStar rexp
  | RPlus rexp
  | ROpt rexp

inductive rmatch :: "rexp \<Rightarrow> str \<Rightarrow> bool" where
  rm_lit: "rmatch (RLit s) s"
| rm_space: "is_space c \<Longrightarrow> rmatch RSpace [c]"
| rm_any: "rmatch RAny [c]"
| rm_seq: "rmatch r xs \<Longrightarrow> rmatch s ys \<Longrightarrow> rmatch (RSeq r s) (xs @ ys)"
| rm_alt1: "rmatch r xs \<Longrightarrow> rmatch (RAlt r s) xs"
| rm_alt2: "rmatch s xs \<Longrightarrow> rmatch (RAlt r s) xs"
| rm_star0: "rmatch (RStar r) []"
| rm_star: "rmatch r xs \<Longrightarrow> rmatch (RStar r) ys \<Longrightarrow> rmatch (RStar r) (xs @ ys)"
| rm_plus: "rmatch r xs \<Longrightarrow> rmatch (RStar r) ys \<Longrightarrow> rmatch (RPlus r) (xs @ ys)"
| rm_opt0: "rmatch (ROpt r) []"
| rm_opt: "rmatch r xs \<Longrightarrow> rmatch (ROpt r) xs"

definition name_re :: rexp where
  "name_re =
     RAlt (RSeq (RLit (ustr ''version''))
                (RAlt (RLit (ustr ''added'')) (RAlt (RLit (ustr ''changed'')) (RLit (ustr ''removed'')))))
          (RSeq (RLit (ustr ''deprecated'')) (ROpt (RLit (ustr ''-removed''))))"

definition before_re :: rexp where
  "before_re =
     RSeq (RStar RSpace) (RSeq (RLit (ustr ''..'')) (RSeq (RPlus RSpace)
       (RSeq name_re
         (RSeq (RStar RSpace) (RSeq (RLit (ustr ''::'')) (RStar RSpace))))))"

definition after_re :: rexp where
  "after_re = RStar RAny"

definition DIRECTIVE_RE :: rexp where
  "DIRECTIVE_RE = RSeq before_re (RSeq (RLit (ustr ''next'')) after_re)"

text \<open>
  \<open>is_fullmatch line before after\<close>: the pattern matches the whole of \<open>line\<close> with the two
  named groups bound to \<open>before\<close> and \<open>after\<close>.
\<close>

definition is_fullmatch :: "str \<Rightarrow> str \<Rightarrow> str \<Rightarrow> bool" where
  "is_fullmatch line before after \<longleftrightarrow>
     line = before @ ustr ''next'' @ after \<and> rmatch before_re before \<and> rmatch after_re after"


section \<open>\<^verbatim>\<open>DIRECTIVE_RE.fullmatch\<close> as a function\<close>

text \<open>
  The match computed from left to right. No step has to be undone: each run of
  whitespace in the pattern is followed by a character that is no whitespace, and of the
  directive names only \<^verbatim>\<open>deprecated\<close> begins another one, which the greedy \<^verbatim>\<open>(-removed)?\<close>
  tries first. \<open>fullmatch_iff\<close> below proves that the function returns the groups of the
  pattern, and that no other binding of the groups exists.
\<close>

definition strip_prefix :: "str \<Rightarrow> str \<Rightarrow> str option" where
  "strip_prefix p xs = (if prefix p xs then Some (drop (length p) xs) else None)"

fun strip_first :: "str list \<Rightarrow> str \<Rightarrow> str option" where
  "strip_first [] xs = None"
| "strip_first (p # ps) xs =
     (if prefix p xs then Some (drop (length p) xs) else strip_first ps xs)"

definition directive_names :: "str list" where
  "directive_names =
     [ustr ''versionadded'', ustr ''versionchanged'', ustr ''versionremoved'',
      ustr ''deprecated-removed'', ustr ''deprecated'']"

definition match_before :: "str \<Rightarrow> str option" where
  "match_before line =
     (case strip_prefix (ustr ''..'') (dropWhile is_space line) of
        None \<Rightarrow> None
      | Some r1 \<Rightarrow>
          if takeWhile is_space r1 = [] then None
          else (case strip_first directive_names (dropWhile is_space r1) of
                  None \<Rightarrow> None
                | Some r2 \<Rightarrow>
                    (case strip_prefix (ustr ''::'') (dropWhile is_space r2) of
                       None \<Rightarrow> None
                     | Some r3 \<Rightarrow> Some (dropWhile is_space r3))))"

definition fullmatch :: "str \<Rightarrow> (str \<times> str) option" where
  "fullmatch line =
     (case match_before line of
        None \<Rightarrow> None
      | Some rest \<Rightarrow>
          (case strip_prefix (ustr ''next'') rest of
             None \<Rightarrow> None
           | Some after \<Rightarrow> Some (take (length line - length rest) line, after)))"


section \<open>The rewriter\<close>

text \<open>
  The body of the loop over the lines of one file:
  \<^verbatim>\<open>
      if match := DIRECTIVE_RE.fullmatch(line):
          line = match["before"] + version + match["after"]
          num_changed_lines += 1
      lines.append(line)
  \<close>
  \<open>rewrite_line\<close> is the conditional: the line to append, and whether the counter goes up.
  The \<^verbatim>\<open>try\<close> around the body adds a note to an exception and raises it again; matching,
  concatenation and \<^verbatim>\<open>append\<close> raise nothing on strings, so the model has no such branch.
\<close>

definition rewrite_line :: "str \<Rightarrow> str \<Rightarrow> str \<times> bool" where
  "rewrite_line version line =
     (case fullmatch line of
        Some (before, after) \<Rightarrow> (before @ version @ after, True)
      | None \<Rightarrow> (line, False))"

definition loop_body :: "str \<Rightarrow> str list \<times> nat \<Rightarrow> str \<Rightarrow> str list \<times> nat" where
  "loop_body version acc line =
     (case acc of (lines, num_changed_lines) \<Rightarrow>
        (case rewrite_line version line of
           (line', changed) \<Rightarrow>
             (lines @ [line'], if changed then num_changed_lines + 1 else num_changed_lines)))"

definition process_lines :: "str \<Rightarrow> str list \<Rightarrow> str list \<times> nat" where
  "process_lines version ls = foldl (loop_body version) ([], 0) ls"

text \<open>
  Reading: the file is opened in text mode with the default \<^verbatim>\<open>newline=None\<close>, so
  \<^verbatim>\<open>\r\n\<close> and a lone \<^verbatim>\<open>\r\<close> arrive as \<^verbatim>\<open>\n\<close>, and iterating over the file yields the text cut
  after each \<^verbatim>\<open>\n\<close>, every line keeping its terminator.
\<close>

fun translate_newlines :: "str \<Rightarrow> str" where
  "translate_newlines [] = []"
| "translate_newlines [c] = (if c = CR then [LF] else [c])"
| "translate_newlines (c # d # cs) =
     (if c = CR \<and> d = LF then LF # translate_newlines cs
      else if c = CR then LF # translate_newlines (d # cs)
      else c # translate_newlines (d # cs))"

fun readlines :: "str \<Rightarrow> str list" where
  "readlines [] = []"
| "readlines (c # cs) =
     (if c = LF then [LF] # readlines cs
      else (case readlines cs of [] \<Rightarrow> [[c]] | l # ls \<Rightarrow> (c # l) # ls))"

text \<open>
  A file is opened with \<^verbatim>\<open>encoding="utf-8"\<close>. UTF-8 carries the code points up to U+10FFFF
  but for the surrogates U+D800..U+DFFF: decoding a file never yields one, and encoding a
  string that holds one raises \<^verbatim>\<open>UnicodeEncodeError\<close>. The version comes from the command
  line and may hold one.
\<close>

definition encodable_char :: "codepoint \<Rightarrow> bool" where
  "encodable_char c \<longleftrightarrow> c < 55296 \<or> (57344 \<le> c \<and> c \<le> 1114111)"

definition encodable :: "str \<Rightarrow> bool" where
  "encodable s \<longleftrightarrow> list_all encodable_char s"

text \<open>
  The file system is a map from the paths that \<^verbatim>\<open>glob("**/*.rst")\<close> yields to the decoded
  text of each file. A path that cannot be opened has no entry, and an entry that UTF-8
  cannot carry stands for bytes that do not decode: in both cases \<^verbatim>\<open>open\<close> or the iteration
  over the file raises before anything is written. \<open>written\<close> records every
  \<^verbatim>\<open>open(path, "w")\<close>, in order.
\<close>

type_synonym path = string

record world =
  files :: "path \<rightharpoonup> str"
  written :: "path list"

datatype error = ReadError path | WriteError path

definition read_text :: "world \<Rightarrow> path \<Rightarrow> str option" where
  "read_text w p =
     (case files w p of
        None \<Rightarrow> None
      | Some content \<Rightarrow> if encodable content then Some content else None)"

text \<open>
  Writing:
  \<^verbatim>\<open>
      with open(path, "w", encoding="utf-8") as file:
          file.writelines(lines)
  \<close>
  \<^verbatim>\<open>open\<close> empties the file and \<^verbatim>\<open>writelines\<close> encodes one line after the other. The first line
  that cannot be encoded raises; leaving the \<^verbatim>\<open>with\<close> block closes the file, which then holds
  the lines before that one and no more. \<open>write_file\<close> returns the new file system and
  whether every line was written. The line separator of the system is taken to be \<^verbatim>\<open>\n\<close>,
  so that a line is written as it is, and a file that could be read is taken to be one
  that can be opened for writing.
\<close>

definition write_file :: "path \<Rightarrow> str list \<Rightarrow> world \<Rightarrow> world \<times> bool" where
  "write_file p ls w =
     (w\<lparr>files := (files w)(p \<mapsto> concat (takeWhile encodable ls)), written := written w @ [p]\<rparr>,
      list_all encodable ls)"

text \<open>
  The loop over the files. An exception ends the run and leaves what was written before
  it. The messages that \<^verbatim>\<open>--verbose\<close> sends to \<^verbatim>\<open>stderr\<close> are not modelled.
\<close>

fun main :: "str \<Rightarrow> path list \<Rightarrow> world \<Rightarrow> world \<times> error option" where
  "main version [] w = (w, None)"
| "main version (p # ps) w =
     (case read_text w p of
        None \<Rightarrow> (w, Some (ReadError p))
      | Some content \<Rightarrow>
          (case process_lines version (readlines (translate_newlines content)) of
             (lines, num_changed_lines) \<Rightarrow>
               if num_changed_lines \<noteq> 0 then
                 (case write_file p lines w of
                    (w', complete) \<Rightarrow>
                      if complete then main version ps w' else (w', Some (WriteError p)))
               else main version ps w))"


section \<open>The directive grammar of the specification\<close>

text \<open>
  The grammar as the specification words it, to be compared with the pattern of the
  source: optional leading whitespace, two dots and whitespace, one of the five directive
  names, whitespace that may be empty, \<^verbatim>\<open>::\<close>, whitespace that may be empty, the token
  \<^verbatim>\<open>next\<close>, and the remainder of the line. \<open>directive_line line p r\<close> says that \<open>line\<close> is
  such a line, \<open>p\<close> being all that stands before the token and \<open>r\<close> all that follows it.
\<close>

definition spaces :: "str \<Rightarrow> bool" where
  "spaces xs \<longleftrightarrow> list_all is_space xs"

definition spec_directive_names :: "str list" where
  "spec_directive_names =
     [ustr ''versionadded'', ustr ''versionchanged'', ustr ''versionremoved'',
      ustr ''deprecated'', ustr ''deprecated-removed'']"

definition directive_prefix :: "str \<Rightarrow> bool" where
  "directive_prefix p \<longleftrightarrow>
     (\<exists>ws0 ws1 name ws2 ws3.
        spaces ws0 \<and> spaces ws1 \<and> ws1 \<noteq> [] \<and> name \<in> set spec_directive_names \<and>
        spaces ws2 \<and> spaces ws3 \<and>
        p = ws0 @ ustr ''..'' @ ws1 @ name @ ws2 @ ustr ''::'' @ ws3)"

definition directive_line :: "str \<Rightarrow> str \<Rightarrow> str \<Rightarrow> bool" where
  "directive_line line p r \<longleftrightarrow> directive_prefix p \<and> line = p @ ustr ''next'' @ r"

definition is_directive :: "str \<Rightarrow> bool" where
  "is_directive line \<longleftrightarrow> (\<exists>p r. directive_line line p r)"


text \<open>The lines that iterating over a file with the given text yields.\<close>

definition file_lines :: "str \<Rightarrow> str list" where
  "file_lines content = readlines (translate_newlines content)"

text \<open>A file has a directive when one of the lines read from it is a directive line.\<close>

definition has_directive :: "str \<Rightarrow> bool" where
  "has_directive content \<longleftrightarrow>
     (\<exists>line \<in> set (readlines (translate_newlines content)). is_directive line)"


text \<open>
  What a second run needs of the version string: UTF-8 can carry it, it holds no line
  break, and what is left of it after leading whitespace neither begins with \<^verbatim>\<open>next\<close> nor is
  a beginning of \<^verbatim>\<open>next\<close> (the empty string is one). A dotted version number such as \<^verbatim>\<open>3.13\<close>
  meets this.
\<close>

definition version_ok :: "str \<Rightarrow> bool" where
  "version_ok v \<longleftrightarrow>
     encodable v \<and> LF \<notin> set v \<and> CR \<notin> set v \<and>
     \<not> prefix (dropWhile is_space v) (ustr ''next'') \<and>
     \<not> prefix (ustr ''next'') (dropWhile is_space v)"

text \<open>
  The shape of the lines that iterating over a file yields: no line is empty, a line break
  stands only at the end of a line, and every line but the last ends with one.
\<close>

definition lines_ok :: "str list \<Rightarrow> bool" where
  "lines_ok ls \<longleftrightarrow>
     (\<forall>l \<in> set ls. l \<noteq> [] \<and> LF \<notin> set (butlast l)) \<and> (\<forall>l \<in> set (butlast ls). last l = LF)"


section \<open>The release tag\<close>

text \<open>
  The tests import \<^verbatim>\<open>Tag\<close> and \<^verbatim>\<open>ReleaseShelf\<close> from \<^verbatim>\<open>release\<close> and call
  \<^verbatim>\<open>run_release.check_doc_unreleased_version\<close>; neither module is among the sources. What
  follows is written from the specification, and from the tests where they fix a detail.
\<close>

text \<open>
  Modelled from the spec: the pre-release qualifier of \<^verbatim>\<open>Tag\<close> (module \<^verbatim>\<open>release\<close>, absent):
  none for a final release, alpha, beta or release candidate.
\<close>

datatype level = Alpha | Beta | Candidate | Final

text \<open>
  Modelled from the spec: the class \<^verbatim>\<open>Tag\<close> (module \<^verbatim>\<open>release\<close>, absent), decomposed into the
  release series major.minor.micro and the qualifier with its numeric suffix. The textual
  form is \<open>to_string\<close> of the parts.
\<close>

record tag =
  major :: nat
  minor :: nat
  micro :: nat
  level :: level
  serial :: nat

text \<open>
  Modelled from the spec: the error kinds of the validation engine (module \<^verbatim>\<open>run_release\<close>,
  absent), as its error taxonomy lists them.
\<close>

datatype failure = ParseError | ArtifactMismatch | PreconditionMissing | OperatorDeclined

text \<open>
  Modelled from the spec: decimal numbers in a version string (part of \<^verbatim>\<open>Tag\<close>, absent):
  \<open>decimal\<close> writes a number, \<open>take_number\<close> reads the longest run of digits at the front of
  a string and fails when there is none.
\<close>

fun decimal :: "nat \<Rightarrow> str" where
  "decimal n = (if 10 \<le> n then decimal (n div 10) @ [n mod 10 + 48] else [n + 48])"

definition is_digit :: "codepoint \<Rightarrow> bool" where
  "is_digit c \<longleftrightarrow> 48 \<le> c \<and> c \<le> 57"

definition number :: "str \<Rightarrow> nat" where
  "number ds = foldl (\<lambda>n c. 10 * n + (c - 48)) 0 ds"

definition take_number :: "str \<Rightarrow> (nat \<times> str) option" where
  "take_number s =
     (if takeWhile is_digit s = [] then None
      else Some (number (takeWhile is_digit s), dropWhile is_digit s))"

text \<open>
  Modelled from the spec: the textual form of a \<^verbatim>\<open>Tag\<close> (absent): \<^verbatim>\<open>X.Y.ZaN\<close>, \<^verbatim>\<open>X.Y.ZbN\<close>,
  \<^verbatim>\<open>X.Y.ZrcN\<close>, or \<^verbatim>\<open>X.Y.Z\<close> for a final release.
\<close>

fun level_text :: "level \<Rightarrow> str" where
  "level_text Alpha = ustr ''a''"
| "level_text Beta = ustr ''b''"
| "level_text Candidate = ustr ''rc''"
| "level_text Final = []"

definition to_string :: "tag \<Rightarrow> str" where
  "to_string t =
     decimal (major t) @ ustr ''.'' @ decimal (minor t) @ ustr ''.'' @ decimal (micro t) @
     (if level t = Final then [] else level_text (level t) @ decimal (serial t))"

text \<open>
  Modelled from the spec: the constructor of \<^verbatim>\<open>Tag\<close> (absent): it accepts a string of the
  version grammar and fails with \<open>ParseError\<close> on any other.
\<close>

definition parse_level :: "str \<Rightarrow> (level \<times> str) option" where
  "parse_level s =
     (if prefix (ustr ''rc'') s then Some (Candidate, drop 2 s)
      else if prefix (ustr ''a'') s then Some (Alpha, drop 1 s)
      else if prefix (ustr ''b'') s then Some (Beta, drop 1 s)
      else None)"

definition parse_tag :: "str \<Rightarrow> failure + tag" where
  "parse_tag s =
     (case take_number s of None \<Rightarrow> Inl ParseError | Some (x, s1) \<Rightarrow>
      case strip_prefix (ustr ''.'') s1 of None \<Rightarrow> Inl ParseError | Some s2 \<Rightarrow>
      case take_number s2 of None \<Rightarrow> Inl ParseError | Some (y, s3) \<Rightarrow>
      case strip_prefix (ustr ''.'') s3 of None \<Rightarrow> Inl ParseError | Some s4 \<Rightarrow>
      case take_number s4 of None \<Rightarrow> Inl ParseError | Some (z, s5) \<Rightarrow>
        if s5 = [] then Inr \<lparr>major = x, minor = y, micro = z, level = Final, serial = 0\<rparr>
        else
          (case parse_level s5 of None \<Rightarrow> Inl ParseError | Some (l, s6) \<Rightarrow>
           case take_number s6 of None \<Rightarrow> Inl ParseError | Some (n, s7) \<Rightarrow>
             if s7 = [] then Inr \<lparr>major = x, minor = y, micro = z, level = l, serial = n\<rparr>
             else Inl ParseError))"

text \<open>
  Modelled from the spec: the version grammar of \<^verbatim>\<open>Tag\<close> (absent), in the words of the
  specification: \<^verbatim>\<open>X.Y.Z\<close>, followed by nothing or by \<^verbatim>\<open>a\<close>, \<^verbatim>\<open>b\<close> or \<^verbatim>\<open>rc\<close> and a number,
  every number being a non-empty run of digits.
\<close>

definition is_number :: "str \<Rightarrow> bool" where
  "is_number ds \<longleftrightarrow> ds \<noteq> [] \<and> list_all is_digit ds"

definition version_grammar :: "str \<Rightarrow> bool" where
  "version_grammar s \<longleftrightarrow>
     (\<exists>x y z q. is_number x \<and> is_number y \<and> is_number z \<and>
        s = x @ ustr ''.'' @ y @ ustr ''.'' @ z @ q \<and>
        (q = [] \<or>
         (\<exists>l n. (l = ustr ''a'' \<or> l = ustr ''b'' \<or> l = ustr ''rc'') \<and> is_number n \<and> q = l @ n)))"

text \<open>
  Modelled from the spec: the comparison of \<^verbatim>\<open>Tag\<close> values (absent): by release series, then
  by qualifier in the order alpha, beta, release candidate, final, then by the suffix.
\<close>

fun level_rank :: "level \<Rightarrow> nat" where
  "level_rank Alpha = 0"
| "level_rank Beta = 1"
| "level_rank Candidate = 2"
| "level_rank Final = 3"

definition tag_less :: "tag \<Rightarrow> tag \<Rightarrow> bool" where
  "tag_less a b \<longleftrightarrow>
     major a < major b \<or> (major a = major b \<and>
       (minor a < minor b \<or> (minor a = minor b \<and>
         (micro a < micro b \<or> (micro a = micro b \<and>
           (level_rank (level a) < level_rank (level b) \<or>
              (level a = level b \<and> serial a < serial b)))))))"


section \<open>The check of the built documentation\<close>

text \<open>
  Modelled from the spec: the predicate of \<^verbatim>\<open>Tag\<close> (absent) that says whether the
  unreleased-doc check applies: to pre-releases and not to final releases, alpha releases
  being exempt.
\<close>

definition requires_doc_check :: "tag \<Rightarrow> bool" where
  "requires_doc_check t \<longleftrightarrow> level t = Beta \<or> level t = Candidate"

text \<open>
  Modelled from the spec: the release state \<^verbatim>\<open>ReleaseShelf\<close> (module \<^verbatim>\<open>release\<close>, absent), of
  which the check reads the tag and the path of the working tree.
\<close>

record release_state =
  release :: tag
  git_repo :: str

text \<open>
  Modelled from the spec: the place of the documentation archive (docs-archive inspector
  of \<^verbatim>\<open>run_release\<close>, absent): \<^verbatim>\<open>python-<tag>-docs-html.tar.bz2\<close> under the versioned directory,
  which the tests lay out as \<^verbatim>\<open><git_repo>/<tag>/docs\<close>.
\<close>

definition archive_path :: "release_state \<Rightarrow> str" where
  "archive_path db =
     git_repo db @ ustr ''/'' @ to_string (release db) @ ustr ''/docs/python-''
       @ to_string (release db) @ ustr ''-docs-html.tar.bz2''"

text \<open>
  Modelled from the spec: the marker that the check looks for (part of
  \<^verbatim>\<open>check_doc_unreleased_version\<close>, absent): the text \<^verbatim>\<open>New in <tag> (unreleased)\<close> with the exact
  tag of the release.
\<close>

definition unreleased_marker :: "tag \<Rightarrow> str" where
  "unreleased_marker t = ustr ''New in '' @ to_string t @ ustr '' (unreleased)''"

text \<open>
  Modelled from the spec: the scan of the front page for the marker (part of
  \<^verbatim>\<open>check_doc_unreleased_version\<close>, absent): the marker occurs somewhere in the text.
\<close>

fun contains :: "str \<Rightarrow> str \<Rightarrow> bool" where
  "contains p [] \<longleftrightarrow> p = []"
| "contains p (c # cs) \<longleftrightarrow> prefix p (c # cs) \<or> contains p cs"

text \<open>
  Modelled from the spec: the ways \<^verbatim>\<open>check_doc_unreleased_version\<close> (absent) can end: it
  returns, it raises, or it waits for an answer that does not come (the prompt has no
  timeout).
\<close>

datatype outcome = Passed | Raised failure | Waiting

text \<open>
  Modelled from the spec: \<^verbatim>\<open>check_doc_unreleased_version\<close> (module \<^verbatim>\<open>run_release\<close>, absent).
  \<open>docs\<close> maps the path of an archive to the text of its member \<^verbatim>\<open>index.html\<close>; \<open>answers\<close> is
  what the operator will type, one string for each prompt, and the function returns those
  it has not consumed. A tag that does not require the check makes it a no-op; a missing
  archive is a failed precondition; the marker makes it ask once, and only \<^verbatim>\<open>yes\<close>
  lets the release go on.
\<close>

definition check_doc_unreleased_version ::
    "(str \<rightharpoonup> str) \<Rightarrow> release_state \<Rightarrow> str list \<Rightarrow> outcome \<times> str list" where
  "check_doc_unreleased_version docs db answers =
     (if \<not> requires_doc_check (release db) then (Passed, answers)
      else
        (case docs (archive_path db) of
           None \<Rightarrow> (Raised PreconditionMissing, answers)
         | Some html \<Rightarrow>
             if contains (unreleased_marker (release db)) html
             then (case answers of
                     [] \<Rightarrow> (Waiting, [])
                   | answer # rest \<Rightarrow>
                       (if answer = ustr ''yes'' then Passed else Raised OperatorDeclined, rest))
             else (Passed, answers)))"


section \<open>The pattern and the function agree\<close>

inductive_simps rmatch_RLit: "rmatch (RLit s) xs"
inductive_simps rmatch_RSpace: "rmatch RSpace xs"
inductive_simps rmatch_RSeq: "rmatch (RSeq r s) xs"
inductive_simps rmatch_RAlt: "rmatch (RAlt r s) xs"
inductive_simps rmatch_ROpt: "rmatch (ROpt r) xs"
inductive_simps rmatch_RPlus: "rmatch (RPlus r) xs"

lemma spaces_Nil [simp]: "spaces []"
  by (simp add: spaces_def)

lemma spaces_Cons [simp]: "spaces (c # cs) \<longleftrightarrow> is_space c \<and> spaces cs"
  by (simp add: spaces_def)

lemma spaces_append [simp]: "spaces (xs @ ys) \<longleftrightarrow> spaces xs \<and> spaces ys"
  by (simp add: spaces_def)

lemma spaces_set: "spaces xs \<longleftrightarrow> (\<forall>c\<in>set xs. is_space c)"
  by (simp add: spaces_def list_all_iff)

lemma spaces_takeWhile [simp]: "spaces (takeWhile is_space xs)"
  by (induction xs) auto

lemma rmatch_star_space_spaces:
  assumes "rmatch r xs" and "r = RStar RSpace"
  shows "spaces xs"
  using assms
proof (induction rule: rmatch.induct)
  case (rm_star r xs ys)
  then show ?case by (auto simp: rmatch_RSpace)
qed auto

lemma spaces_rmatch_star: "spaces xs \<Longrightarrow> rmatch (RStar RSpace) xs"
proof (induction xs)
  case Nil
  show ?case by (rule rm_star0)
next
  case (Cons c cs)
  then have "rmatch RSpace [c]" and "rmatch (RStar RSpace) cs"
    by (auto intro: rm_space)
  then have "rmatch (RStar RSpace) ([c] @ cs)" by (rule rm_star)
  then show ?case by simp
qed

lemma rmatch_star_space: "rmatch (RStar RSpace) xs \<longleftrightarrow> spaces xs"
  using rmatch_star_space_spaces spaces_rmatch_star by blast

lemma rmatch_plus_space: "rmatch (RPlus RSpace) xs \<longleftrightarrow> spaces xs \<and> xs \<noteq> []"
proof (cases xs)
  case Nil
  then show ?thesis by (simp add: rmatch_RPlus rmatch_RSpace)
next
  case (Cons c cs)
  have "spaces xs \<Longrightarrow> \<exists>ys zs. xs = ys @ zs \<and> (\<exists>d. ys = [d] \<and> is_space d) \<and> spaces zs"
    using Cons by (intro exI [of _ "[c]"] exI [of _ cs]) simp
  then show ?thesis using Cons
    by (auto simp: rmatch_RPlus rmatch_RSpace rmatch_star_space)
qed

lemma rmatch_star_any: "rmatch (RStar RAny) xs"
proof (induction xs)
  case Nil
  show ?case by (rule rm_star0)
next
  case (Cons c cs)
  have "rmatch (RStar RAny) ([c] @ cs)" using rm_any Cons by (rule rm_star)
  then show ?case by simp
qed

lemma rmatch_name_re: "rmatch name_re n \<longleftrightarrow> n \<in> set spec_directive_names"
  unfolding name_re_def spec_directive_names_def
  by (auto simp add: rmatch_RSeq rmatch_RAlt rmatch_ROpt rmatch_RLit ustr_def)

lemma rmatch_before_re: "rmatch before_re b \<longleftrightarrow> directive_prefix b"
proof
  assume "rmatch before_re b"
  then obtain ws0 ws1 n ws2 ws3 where
    "b = ws0 @ ustr ''..'' @ ws1 @ n @ ws2 @ ustr ''::'' @ ws3"
    "spaces ws0" "spaces ws1" "ws1 \<noteq> []" "n \<in> set spec_directive_names"
    "spaces ws2" "spaces ws3"
    unfolding before_re_def
    by (clarsimp simp: rmatch_RSeq rmatch_RLit rmatch_star_space rmatch_plus_space rmatch_name_re)
  then show "directive_prefix b"
    unfolding directive_prefix_def by blast
next
  assume "directive_prefix b"
  then obtain ws0 ws1 n ws2 ws3 where
    b: "b = ws0 @ ustr ''..'' @ ws1 @ n @ ws2 @ ustr ''::'' @ ws3" and
    s: "spaces ws0" "spaces ws1" "ws1 \<noteq> []" "n \<in> set spec_directive_names"
       "spaces ws2" "spaces ws3"
    unfolding directive_prefix_def by blast
  have 1: "rmatch (RSeq (RLit (ustr ''::'')) (RStar RSpace)) (ustr ''::'' @ ws3)"
    by (rule rm_seq) (use s in \<open>simp_all add: rmatch_RLit rmatch_star_space\<close>)
  have 2: "rmatch (RSeq (RStar RSpace) (RSeq (RLit (ustr ''::'')) (RStar RSpace)))
      (ws2 @ ustr ''::'' @ ws3)"
    by (rule rm_seq) (use s 1 in \<open>simp_all add: rmatch_star_space\<close>)
  have 3: "rmatch (RSeq name_re (RSeq (RStar RSpace) (RSeq (RLit (ustr ''::'')) (RStar RSpace))))
      (n @ ws2 @ ustr ''::'' @ ws3)"
    by (rule rm_seq) (use s 2 in \<open>simp_all add: rmatch_name_re\<close>)
  have 4: "rmatch (RSeq (RPlus RSpace)
      (RSeq name_re (RSeq (RStar RSpace) (RSeq (RLit (ustr ''::'')) (RStar RSpace)))))
      (ws1 @ n @ ws2 @ ustr ''::'' @ ws3)"
    by (rule rm_seq) (use s 3 in \<open>simp_all add: rmatch_plus_space\<close>)
  have 5: "rmatch (RSeq (RLit (ustr ''..'')) (RSeq (RPlus RSpace)
      (RSeq name_re (RSeq (RStar RSpace) (RSeq (RLit (ustr ''::'')) (RStar RSpace))))))
      (ustr ''..'' @ ws1 @ n @ ws2 @ ustr ''::'' @ ws3)"
    by (rule rm_seq) (use 4 in \<open>simp_all add: rmatch_RLit\<close>)
  show "rmatch before_re b"
    unfolding before_re_def b
    by (rule rm_seq) (use s 5 in \<open>simp_all add: rmatch_star_space\<close>)
qed


lemma strip_prefix_Some: "strip_prefix p xs = Some r \<longleftrightarrow> xs = p @ r"
  by (auto simp: strip_prefix_def prefix_def)

lemma strip_first_sound: "strip_first ps xs = Some r \<Longrightarrow> \<exists>p\<in>set ps. xs = p @ r"
  by (induction ps) (auto simp: prefix_def split: if_splits)

lemma dropWhile_spaces:
  "spaces ws \<Longrightarrow> ys = [] \<or> \<not> is_space (hd ys) \<Longrightarrow> dropWhile is_space (ws @ ys) = ys"
  by (simp add: spaces_set dropWhile_eq_self_iff)

lemma takeWhile_spaces:
  "spaces ws \<Longrightarrow> ys = [] \<or> \<not> is_space (hd ys) \<Longrightarrow> takeWhile is_space (ws @ ys) = ws"
  by (simp add: spaces_set takeWhile_eq_Nil_iff)

lemma set_directive_names: "set directive_names = set spec_directive_names"
  by (auto simp: directive_names_def spec_directive_names_def)

lemma name_starts:
  "n \<in> set spec_directive_names \<Longrightarrow> n \<noteq> [] \<and> \<not> is_space (hd n)"
  by (auto simp: spec_directive_names_def ustr_def is_space_def)

lemma strip_first_name:
  assumes "n \<in> set spec_directive_names" and "t = [] \<or> hd t \<noteq> 45"
  shows "strip_first directive_names (n @ t) = Some t"
proof (cases t)
  case Nil
  with assms(1) show ?thesis
    by (auto simp: spec_directive_names_def directive_names_def ustr_def)
next
  case (Cons c cs)
  with assms show ?thesis
    by (auto simp: spec_directive_names_def directive_names_def ustr_def)
qed

lemma match_before_complete:
  assumes "directive_prefix b" and "rest = [] \<or> \<not> is_space (hd rest)"
  shows "match_before (b @ rest) = Some rest"
proof -
  from assms(1) obtain ws0 ws1 n ws2 ws3 where
    b: "b = ws0 @ ustr ''..'' @ ws1 @ n @ ws2 @ ustr ''::'' @ ws3" and
    s: "spaces ws0" "spaces ws1" "ws1 \<noteq> []" "n \<in> set spec_directive_names"
       "spaces ws2" "spaces ws3"
    unfolding directive_prefix_def by blast
  define r3 where "r3 = ws3 @ rest"
  define r2 where "r2 = ws2 @ ustr ''::'' @ r3"
  define r1 where "r1 = ws1 @ n @ r2"
  have l: "b @ rest = ws0 @ ustr ''..'' @ r1"
    by (simp add: b r1_def r2_def r3_def)
  have d0: "dropWhile is_space (b @ rest) = ustr ''..'' @ r1"
    unfolding l using s(1) by (rule dropWhile_spaces) (simp add: ustr_def is_space_def)
  have t1: "takeWhile is_space r1 \<noteq> []"
    using s(2,3) by (cases ws1) (simp_all add: r1_def)
  have d1: "dropWhile is_space r1 = n @ r2"
    unfolding r1_def using s(2) by (rule dropWhile_spaces) (use name_starts [OF s(4)] in simp)
  have "r2 = [] \<or> hd r2 \<noteq> 45"
    using s(5) by (cases ws2) (auto simp: r2_def ustr_def is_space_def)
  with s(4) have sf: "strip_first directive_names (n @ r2) = Some r2"
    by (rule strip_first_name)
  have d2: "dropWhile is_space r2 = ustr ''::'' @ r3"
    unfolding r2_def using s(5) by (rule dropWhile_spaces) (simp add: ustr_def is_space_def)
  have d3: "dropWhile is_space r3 = rest"
    unfolding r3_def using s(6) assms(2) by (rule dropWhile_spaces)
  show ?thesis
    using t1 by (simp add: match_before_def d0 d1 sf d2 d3 strip_prefix_Some [THEN iffD2])
qed

lemma match_before_sound:
  assumes "match_before l = Some rest"
  shows "\<exists>b. l = b @ rest \<and> directive_prefix b \<and> (rest = [] \<or> \<not> is_space (hd rest))"
proof -
  from assms obtain r1 r2 r3 where
    p0: "strip_prefix (ustr ''..'') (dropWhile is_space l) = Some r1" and
    t1: "takeWhile is_space r1 \<noteq> []" and
    p1: "strip_first directive_names (dropWhile is_space r1) = Some r2" and
    p2: "strip_prefix (ustr ''::'') (dropWhile is_space r2) = Some r3" and
    rest: "rest = dropWhile is_space r3"
    by (auto simp: match_before_def split: option.splits if_splits)
  from p1 obtain n where n: "n \<in> set directive_names" "dropWhile is_space r1 = n @ r2"
    using strip_first_sound by blast
  define b where "b = takeWhile is_space l @ ustr ''..'' @ takeWhile is_space r1 @ n @
      takeWhile is_space r2 @ ustr ''::'' @ takeWhile is_space r3"
  have e3: "r3 = takeWhile is_space r3 @ rest"
    by (simp add: rest)
  have e2: "r2 = takeWhile is_space r2 @ ustr ''::'' @ r3"
    using p2 takeWhile_dropWhile_id [of is_space r2] by (simp add: strip_prefix_Some)
  have e1: "r1 = takeWhile is_space r1 @ n @ r2"
    using n(2) takeWhile_dropWhile_id [of is_space r1] by simp
  have e0: "l = takeWhile is_space l @ ustr ''..'' @ r1"
    using p0 takeWhile_dropWhile_id [of is_space l] by (simp add: strip_prefix_Some)
  have "l = b @ rest"
    unfolding b_def using e0 e1 e2 e3 by (metis append.assoc)
  moreover have "directive_prefix b"
    unfolding directive_prefix_def b_def using t1 n(1) set_directive_names
    by (intro exI [of _ "takeWhile is_space l"] exI [of _ "takeWhile is_space r1"] exI [of _ n]
        exI [of _ "takeWhile is_space r2"] exI [of _ "takeWhile is_space r3"]) simp
  moreover have "rest = [] \<or> \<not> is_space (hd rest)"
    unfolding rest using hd_dropWhile by blast
  ultimately show ?thesis by blast
qed

lemma fullmatch_iff: "fullmatch line = Some (before, after) \<longleftrightarrow> is_fullmatch line before after"
proof
  assume "fullmatch line = Some (before, after)"
  then obtain rest where r: "match_before line = Some rest"
      "strip_prefix (ustr ''next'') rest = Some after"
      "before = take (length line - length rest) line"
    by (auto simp: fullmatch_def split: option.splits)
  from r(1) obtain b where b: "line = b @ rest" "directive_prefix b"
    using match_before_sound by blast
  have "before = b" using r(3) b(1) by simp
  moreover have "rest = ustr ''next'' @ after" using r(2) by (simp add: strip_prefix_Some)
  ultimately show "is_fullmatch line before after"
    using b by (simp add: is_fullmatch_def rmatch_before_re after_re_def rmatch_star_any)
next
  assume "is_fullmatch line before after"
  then have l: "line = before @ ustr ''next'' @ after" and p: "directive_prefix before"
    by (simp_all add: is_fullmatch_def rmatch_before_re)
  have "match_before (before @ ustr ''next'' @ after) = Some (ustr ''next'' @ after)"
    using p by (rule match_before_complete) (simp add: ustr_def is_space_def)
  then show "fullmatch line = Some (before, after)"
    by (simp add: fullmatch_def l strip_prefix_Some [THEN iffD2])
qed

lemma rmatch_DIRECTIVE_RE: "rmatch DIRECTIVE_RE line \<longleftrightarrow> (\<exists>b a. is_fullmatch line b a)"
  unfolding DIRECTIVE_RE_def is_fullmatch_def
  by (simp add: rmatch_RSeq rmatch_RLit) blast

lemma is_fullmatch_directive_line: "is_fullmatch line b a \<longleftrightarrow> directive_line line b a"
  by (auto simp: is_fullmatch_def directive_line_def rmatch_before_re after_re_def rmatch_star_any)

lemma fullmatch_directive_line: "directive_line line p r \<Longrightarrow> fullmatch line = Some (p, r)"
  by (simp add: fullmatch_iff is_fullmatch_directive_line)

lemma fullmatch_None_iff: "fullmatch line = None \<longleftrightarrow> \<not> is_directive line"
proof (cases "fullmatch line")
  case None
  then have "\<not> directive_line line p r" for p r
    using fullmatch_directive_line [of line p r] by auto
  with None show ?thesis by (simp add: is_directive_def)
next
  case (Some m)
  then have "directive_line line (fst m) (snd m)"
    using fullmatch_iff [of line "fst m" "snd m"] by (simp add: is_fullmatch_directive_line)
  with Some show ?thesis by (auto simp: is_directive_def)
qed

lemma rewrite_line_directive:
  "directive_line line p r \<Longrightarrow> rewrite_line v line = (p @ v @ r, True)"
  by (simp add: rewrite_line_def fullmatch_directive_line)

lemma rewrite_line_other: "\<not> is_directive line \<Longrightarrow> rewrite_line v line = (line, False)"
  by (simp add: rewrite_line_def fullmatch_None_iff [THEN iffD2])

lemma directive_prefix_extend:
  assumes "directive_prefix b" and "spaces ws"
  shows "directive_prefix (b @ ws)"
proof -
  from assms(1) obtain ws0 ws1 n ws2 ws3 where
    b: "b = ws0 @ ustr ''..'' @ ws1 @ n @ ws2 @ ustr ''::'' @ ws3" and
    s: "spaces ws0" "spaces ws1" "ws1 \<noteq> []" "n \<in> set spec_directive_names"
       "spaces ws2" "spaces ws3"
    unfolding directive_prefix_def by blast
  show ?thesis
    unfolding directive_prefix_def using s assms(2)
    by (intro exI [of _ ws0] exI [of _ ws1] exI [of _ n] exI [of _ ws2] exI [of _ "ws3 @ ws"])
      (simp add: b)
qed

lemma match_before_prefix:
  assumes "directive_prefix b"
  shows "match_before (b @ x) = Some (dropWhile is_space x)"
proof -
  have "directive_prefix (b @ takeWhile is_space x)"
    using assms by (rule directive_prefix_extend) simp
  moreover have "dropWhile is_space x = [] \<or> \<not> is_space (hd (dropWhile is_space x))"
    using hd_dropWhile by blast
  ultimately have "match_before ((b @ takeWhile is_space x) @ dropWhile is_space x)
      = Some (dropWhile is_space x)"
    by (rule match_before_complete)
  then show ?thesis by simp
qed

lemma fullmatch_prefix:
  assumes "directive_prefix b"
  shows "fullmatch (b @ x) =
    (case strip_prefix (ustr ''next'') (dropWhile is_space x) of
       None \<Rightarrow> None
     | Some a \<Rightarrow> Some (b @ takeWhile is_space x, a))"
proof -
  have e: "b @ x = (b @ takeWhile is_space x) @ dropWhile is_space x"
    by simp
  have "take (length (b @ x) - length (dropWhile is_space x)) (b @ x)
      = b @ takeWhile is_space x"
    by (subst (1 2) e) (simp del: takeWhile_dropWhile_id)
  then show ?thesis
    by (simp add: fullmatch_def match_before_prefix [OF assms] split: option.splits)
qed


section \<open>Single lines\<close>

text \<open>
  Claim C1. The rewriter changes a line, and counts it as changed, if and only if the whole
  line matches the directive grammar: optional leading whitespace, two dots and whitespace,
  one of the names \<^verbatim>\<open>versionadded\<close>, \<^verbatim>\<open>versionchanged\<close>, \<^verbatim>\<open>versionremoved\<close>, \<^verbatim>\<open>deprecated\<close>,
  \<^verbatim>\<open>deprecated-removed\<close>, then \<^verbatim>\<open>::\<close>, the token \<^verbatim>\<open>next\<close> and the remainder. The rewritten line
  is the captured prefix, the target version and the captured remainder; a line that does
  not match is appended as it is. In particular \<^verbatim>\<open>.. versionchanged:: next\n\<close> with target
  \<^verbatim>\<open>3.13\<close> becomes \<^verbatim>\<open>.. versionchanged:: 3.13\n\<close>, and \<^verbatim>\<open>.. note:: next\<close> is never rewritten.
\<close>

theorem rewrite_line_iff_directive:
  "(directive_line line p r \<longrightarrow> rewrite_line version line = (p @ version @ r, True)) \<and>
   (\<not> is_directive line \<longrightarrow> rewrite_line version line = (line, False)) \<and>
   rewrite_line (ustr ''3.13'') (ustr ''.. versionchanged:: next'' @ [LF])
     = (ustr ''.. versionchanged:: 3.13'' @ [LF], True) \<and>
   rewrite_line version (ustr ''.. note:: next'') = (ustr ''.. note:: next'', False)"
proof (intro conjI impI)
  show "rewrite_line (ustr ''3.13'') (ustr ''.. versionchanged:: next'' @ [LF])
     = (ustr ''.. versionchanged:: 3.13'' @ [LF], True)"
    by (simp add: rewrite_line_def fullmatch_def match_before_def strip_prefix_def
        directive_names_def ustr_def is_space_def LF_def)
  show "rewrite_line version (ustr ''.. note:: next'') = (ustr ''.. note:: next'', False)"
    by (simp add: rewrite_line_def fullmatch_def match_before_def strip_prefix_def
        directive_names_def ustr_def is_space_def)
qed (simp_all add: rewrite_line_directive rewrite_line_other)

lemma directive_prefixI:
  assumes "spaces ws0" "spaces ws1" "ws1 \<noteq> []" "name \<in> set spec_directive_names"
    "spaces ws2" "spaces ws3"
  shows "directive_prefix (ws0 @ ustr ''..'' @ ws1 @ name @ ws2 @ ustr ''::'' @ ws3)"
  unfolding directive_prefix_def using assms by blast

text \<open>A directive line that is rewritten, and a line with a version that is not.\<close>

theorem rewrite_line_iff_directive_witness:
  "directive_line (ustr ''   .. versionadded:: next'' @ [LF]) (ustr ''   .. versionadded:: '') [LF] \<and>
   rewrite_line (ustr ''3.14'') (ustr ''   .. versionadded:: next'' @ [LF])
     = (ustr ''   .. versionadded:: 3.14'' @ [LF], True) \<and>
   \<not> is_directive (ustr ''.. versionadded:: 3.12'' @ [LF]) \<and>
   rewrite_line (ustr ''3.14'') (ustr ''.. versionadded:: 3.12'' @ [LF])
     = (ustr ''.. versionadded:: 3.12'' @ [LF], False)"
proof -
  have "directive_prefix (ustr ''   '' @ ustr ''..'' @ ustr '' '' @ ustr ''versionadded'' @ []
      @ ustr ''::'' @ ustr '' '')"
    by (rule directive_prefixI) (simp_all add: spec_directive_names_def ustr_def is_space_def)
  then have d: "directive_line (ustr ''   .. versionadded:: next'' @ [LF])
      (ustr ''   .. versionadded:: '') [LF]"
    by (simp add: directive_line_def ustr_def)
  have "fullmatch (ustr ''.. versionadded:: 3.12'' @ [LF]) = None"
    by (simp add: fullmatch_def match_before_def strip_prefix_def
        directive_names_def ustr_def is_space_def LF_def)
  then have n: "\<not> is_directive (ustr ''.. versionadded:: 3.12'' @ [LF])"
    by (simp add: fullmatch_None_iff)
  show ?thesis
    using d n
      rewrite_line_iff_directive [of "ustr ''   .. versionadded:: next'' @ [LF]"
        "ustr ''   .. versionadded:: ''" "[LF]" "ustr ''3.14''"]
      rewrite_line_iff_directive [of "ustr ''.. versionadded:: 3.12'' @ [LF]" _ _ "ustr ''3.14''"]
    by (simp add: ustr_def)
qed

text \<open>
  Claim C2, as stated: only a line whose version field is exactly the token \<^verbatim>\<open>next\<close> is
  eligible, and \<^verbatim>\<open>.. versionchanged:: nextgen\<close> is not rewritten. The pattern asks for no
  boundary after the token: the line is rewritten, \<^verbatim>\<open>gen\<close> being the remainder.
\<close>

theorem nextgen_is_rewritten:
  "rewrite_line (ustr ''3.13'') (ustr ''.. versionchanged:: nextgen'')
     = (ustr ''.. versionchanged:: 3.13gen'', True)"
  by (simp add: rewrite_line_def fullmatch_def match_before_def strip_prefix_def
      directive_names_def ustr_def is_space_def)

text \<open>
  Claim C2, amended. A line that begins with a directive prefix (leading whitespace, two
  dots, whitespace, a directive name and \<^verbatim>\<open>::\<close> with the whitespace around it) is eligible
  exactly when what follows the prefix begins, after whitespace, with the four characters
  \<^verbatim>\<open>next\<close>. Those four characters are replaced by the version and all that follows them is
  kept, whether it is a further argument or more letters; when the version field does not
  begin with \<^verbatim>\<open>next\<close> the line is left as it is.
\<close>

theorem rewrite_line_eligible:
  "directive_prefix p \<longrightarrow>
   rewrite_line version (p @ x) =
     (if prefix (ustr ''next'') (dropWhile is_space x)
      then (p @ takeWhile is_space x @ version
              @ drop (length (ustr ''next'')) (dropWhile is_space x), True)
      else (p @ x, False))"
  by (simp add: rewrite_line_def fullmatch_prefix strip_prefix_def)

text \<open>The prefix \<^verbatim>\<open>.. versionchanged::\<close> before \<^verbatim>\<open> next, 3.15\<close> and before \<^verbatim>\<open> 3.12\<close>.\<close>

theorem rewrite_line_eligible_witness:
  "directive_prefix (ustr ''.. versionchanged::'') \<and>
   rewrite_line (ustr ''3.13'') (ustr ''.. versionchanged::'' @ ustr '' next, 3.15'')
     = (ustr ''.. versionchanged:: 3.13, 3.15'', True) \<and>
   rewrite_line (ustr ''3.13'') (ustr ''.. versionchanged::'' @ ustr '' 3.12'')
     = (ustr ''.. versionchanged:: 3.12'', False)"
proof -
  have "directive_prefix ([] @ ustr ''..'' @ ustr '' '' @ ustr ''versionchanged'' @ []
      @ ustr ''::'' @ [])"
    by (rule directive_prefixI) (simp_all add: spec_directive_names_def ustr_def is_space_def)
  then have p: "directive_prefix (ustr ''.. versionchanged::'')"
    by (simp add: ustr_def)
  show ?thesis
    using p
      rewrite_line_eligible [of "ustr ''.. versionchanged::''" "ustr ''3.13''"
        "ustr '' next, 3.15''"]
      rewrite_line_eligible [of "ustr ''.. versionchanged::''" "ustr ''3.13''" "ustr '' 3.12''"]
    by (simp add: ustr_def is_space_def)
qed

text \<open>
  Claim C3. In a matching \<^verbatim>\<open>deprecated-removed\<close> line only the first argument position, the
  token \<^verbatim>\<open>next\<close> right after \<^verbatim>\<open>::\<close>, is replaced by the target version; all that follows it,
  a second version argument included, is kept as it is. \<^verbatim>\<open>.. deprecated-removed:: next, 3.15\n\<close>
  with target \<^verbatim>\<open>3.13\<close> becomes \<^verbatim>\<open>.. deprecated-removed:: 3.13, 3.15\n\<close>.
\<close>

theorem deprecated_removed_first_argument:
  "(spaces ws0 \<and> spaces ws1 \<and> ws1 \<noteq> [] \<and> spaces ws2 \<and> spaces ws3 \<longrightarrow>
     rewrite_line version
       (ws0 @ ustr ''..'' @ ws1 @ ustr ''deprecated-removed'' @ ws2 @ ustr ''::'' @ ws3
          @ ustr ''next'' @ rest)
     = (ws0 @ ustr ''..'' @ ws1 @ ustr ''deprecated-removed'' @ ws2 @ ustr ''::'' @ ws3
          @ version @ rest, True)) \<and>
   rewrite_line (ustr ''3.13'') (ustr ''.. deprecated-removed:: next, 3.15'' @ [LF])
     = (ustr ''.. deprecated-removed:: 3.13, 3.15'' @ [LF], True)"
proof (intro conjI impI)
  assume s: "spaces ws0 \<and> spaces ws1 \<and> ws1 \<noteq> [] \<and> spaces ws2 \<and> spaces ws3"
  let ?p = "ws0 @ ustr ''..'' @ ws1 @ ustr ''deprecated-removed'' @ ws2 @ ustr ''::'' @ ws3"
  have "directive_prefix ?p"
    by (rule directive_prefixI) (use s in \<open>simp_all add: spec_directive_names_def\<close>)
  then have "directive_line (?p @ ustr ''next'' @ rest) ?p rest"
    by (simp add: directive_line_def)
  then have "rewrite_line version (?p @ ustr ''next'' @ rest) = (?p @ version @ rest, True)"
    by (rule rewrite_line_directive)
  then show "rewrite_line version
       (ws0 @ ustr ''..'' @ ws1 @ ustr ''deprecated-removed'' @ ws2 @ ustr ''::'' @ ws3
          @ ustr ''next'' @ rest)
     = (ws0 @ ustr ''..'' @ ws1 @ ustr ''deprecated-removed'' @ ws2 @ ustr ''::'' @ ws3
          @ version @ rest, True)"
    by simp
next
  show "rewrite_line (ustr ''3.13'') (ustr ''.. deprecated-removed:: next, 3.15'' @ [LF])
     = (ustr ''.. deprecated-removed:: 3.13, 3.15'' @ [LF], True)"
    by (simp add: rewrite_line_def fullmatch_def match_before_def strip_prefix_def
        directive_names_def ustr_def is_space_def LF_def)
qed

text \<open>An indented directive with a second argument that is itself \<^verbatim>\<open>next\<close>.\<close>

theorem deprecated_removed_first_argument_witness:
  "spaces (ustr ''  '') \<and> spaces (ustr '' '') \<and> ustr '' '' \<noteq> [] \<and> spaces [] \<and> spaces (ustr '' '') \<and>
   rewrite_line (ustr ''3.13'') (ustr ''  .. deprecated-removed:: next, next'' @ [LF])
     = (ustr ''  .. deprecated-removed:: 3.13, next'' @ [LF], True)"
  using deprecated_removed_first_argument [of "ustr ''  ''" "ustr '' ''" "[]" "ustr '' ''"
      "ustr ''3.13''" "ustr '', next'' @ [LF]"]
  by (simp add: ustr_def is_space_def)


section \<open>The lines of one file\<close>

lemma snd_rewrite_line: "snd (rewrite_line v line) = is_directive line"
proof (cases "fullmatch line")
  case None
  then show ?thesis
    using fullmatch_None_iff [of line] by (simp add: rewrite_line_def)
next
  case (Some m)
  then show ?thesis
    using fullmatch_None_iff [of line] by (simp add: rewrite_line_def split: prod.splits)
qed

lemma fst_rewrite_line_other: "\<not> is_directive line \<Longrightarrow> fst (rewrite_line v line) = line"
  by (simp add: rewrite_line_other)

lemma foldl_loop_body:
  "foldl (loop_body v) (acc, n) ls =
     (acc @ map (\<lambda>l. fst (rewrite_line v l)) ls, n + length (filter is_directive ls))"
proof (induction ls arbitrary: acc n)
  case Nil
  show ?case by simp
next
  case (Cons l ls)
  have "loop_body v (acc, n) l =
      (acc @ [fst (rewrite_line v l)], if is_directive l then n + 1 else n)"
    using snd_rewrite_line [of v l] by (cases "rewrite_line v l") (simp add: loop_body_def)
  then show ?case by (simp add: Cons.IH)
qed

lemma process_lines_eq:
  "process_lines v ls = (map (\<lambda>l. fst (rewrite_line v l)) ls, length (filter is_directive ls))"
  by (simp add: process_lines_def foldl_loop_body)

lemma num_changed_zero_iff:
  "snd (process_lines v (readlines (translate_newlines content))) = 0 \<longleftrightarrow> \<not> has_directive content"
  by (simp add: process_lines_eq has_directive_def filter_empty_conv)

lemma map_rewrite_no_directive:
  "\<forall>l\<in>set ls. \<not> is_directive l \<Longrightarrow> map (\<lambda>l. fst (rewrite_line v l)) ls = ls"
  by (induction ls) (simp_all add: fst_rewrite_line_other)


section \<open>Reading back what was written\<close>

lemma translate_newlines_no_CR: "CR \<notin> set (translate_newlines t)"
  by (induction t rule: translate_newlines.induct) (auto simp: LF_def CR_def)

lemma translate_newlines_id: "CR \<notin> set t \<Longrightarrow> translate_newlines t = t"
  by (induction t rule: translate_newlines.induct) auto

lemma concat_readlines: "concat (readlines t) = t"
  by (induction t) (auto split: list.splits)

lemma readlines_terminated:
  "LF \<notin> set xs \<Longrightarrow> readlines (xs @ LF # rest) = (xs @ [LF]) # readlines rest"
  by (induction xs) auto

lemma readlines_unterminated:
  "LF \<notin> set xs \<Longrightarrow> c \<noteq> LF \<Longrightarrow> readlines (xs @ [c]) = [xs @ [c]]"
  by (induction xs) (auto split: list.splits)

lemma lines_ok_Nil [simp]: "lines_ok []"
  by (simp add: lines_ok_def)

lemma lines_ok_Cons:
  "lines_ok (l # ls) \<longleftrightarrow>
     l \<noteq> [] \<and> LF \<notin> set (butlast l) \<and> (ls \<noteq> [] \<longrightarrow> last l = LF) \<and> lines_ok ls"
  by (auto simp: lines_ok_def)

lemma lines_ok_readlines: "lines_ok (readlines t)"
proof (induction t)
  case Nil
  show ?case by simp
next
  case (Cons c cs)
  show ?case
  proof (cases "c = LF")
    case True
    with Cons show ?thesis by (simp add: lines_ok_Cons)
  next
    case False
    with Cons show ?thesis
      by (cases "readlines cs") (auto simp: lines_ok_Cons)
  qed
qed

lemma readlines_concat: "lines_ok ls \<Longrightarrow> readlines (concat ls) = ls"
proof (induction ls)
  case Nil
  show ?case by simp
next
  case (Cons l ls)
  then have l: "l \<noteq> []" "LF \<notin> set (butlast l)" "ls \<noteq> [] \<longrightarrow> last l = LF"
    and IH: "readlines (concat ls) = ls"
    by (simp_all add: lines_ok_Cons)
  from l(1) have split: "l = butlast l @ [last l]" by simp
  show ?case
  proof (cases "last l = LF")
    case True
    have "readlines (butlast l @ LF # concat ls) = (butlast l @ [LF]) # readlines (concat ls)"
      using l(2) by (rule readlines_terminated)
    then have "readlines ((butlast l @ [last l]) @ concat ls) = (butlast l @ [last l]) # ls"
      using True IH by simp
    then show ?thesis using split by simp
  next
    case False
    with l(3) have "ls = []" by blast
    have "readlines (butlast l @ [last l]) = [butlast l @ [last l]]"
      using l(2) False by (rule readlines_unterminated)
    then show ?thesis using split \<open>ls = []\<close> by simp
  qed
qed


section \<open>Rewritten lines\<close>

lemma rewritten_not_directive:
  assumes "version_ok v" and "directive_line line p r"
  shows "\<not> is_directive (p @ v @ r)"
proof -
  from assms(1) have inc: "\<not> prefix (dropWhile is_space v) (ustr ''next'')"
      "\<not> prefix (ustr ''next'') (dropWhile is_space v)"
    by (simp_all add: version_ok_def)
  from inc(1) have "dropWhile is_space v \<noteq> []"
    by (auto simp del: dropWhile_eq_Nil_conv)
  then have "hd (dropWhile is_space v) \<in> set v" "\<not> is_space (hd (dropWhile is_space v))"
    using set_dropWhileD [of _ is_space v] hd_dropWhile [of is_space v] by auto
  then have d: "dropWhile is_space (v @ r) = dropWhile is_space v @ r"
    by (rule dropWhile_append1)
  have "\<not> prefix (ustr ''next'') (dropWhile is_space v @ r)"
    using inc by (metis prefix_append prefixI)
  then have "strip_prefix (ustr ''next'') (dropWhile is_space (v @ r)) = None"
    by (simp add: d strip_prefix_def)
  moreover have "directive_prefix p"
    using assms(2) by (simp add: directive_line_def)
  ultimately have "fullmatch (p @ v @ r) = None"
    by (simp add: fullmatch_prefix)
  then show ?thesis by (simp add: fullmatch_None_iff)
qed

lemma rewritten_line_shape:
  assumes "directive_line line p r" and "line \<noteq> []" and "LF \<notin> set (butlast line)"
    and "LF \<notin> set v"
  shows "p @ v @ r \<noteq> [] \<and> LF \<notin> set (butlast (p @ v @ r)) \<and>
    (last line = LF \<longrightarrow> last (p @ v @ r) = LF)"
proof -
  from assms(1) have line: "line = p @ ustr ''next'' @ r" and p: "directive_prefix p"
    by (simp_all add: directive_line_def)
  from p have "p \<noteq> []"
    by (auto simp: directive_prefix_def ustr_def)
  show ?thesis
  proof (cases "r = []")
    case True
    with assms(3) have "LF \<notin> set p"
      by (simp add: line butlast_append ustr_def)
    with True assms(4) \<open>p \<noteq> []\<close> show ?thesis
      by (auto simp: line ustr_def LF_def butlast_append dest: in_set_butlastD)
  next
    case False
    with assms(3) have "LF \<notin> set p" "LF \<notin> set (butlast r)"
      by (simp_all add: line butlast_append ustr_def)
    with False assms(4) \<open>p \<noteq> []\<close> show ?thesis
      by (simp add: line butlast_append)
  qed
qed

lemma rewritten_line_no_CR:
  assumes "directive_line line p r" and "CR \<notin> set line" and "CR \<notin> set v"
  shows "CR \<notin> set (p @ v @ r)"
  using assms by (auto simp: directive_line_def)

lemma fst_rewrite_line_cases:
  obtains (other) "\<not> is_directive line" "fst (rewrite_line v line) = line"
  | (directive) p r where "directive_line line p r" "fst (rewrite_line v line) = p @ v @ r"
proof (cases "is_directive line")
  case False
  then show ?thesis using other by (simp add: rewrite_line_other)
next
  case True
  then obtain p r where "directive_line line p r" by (auto simp: is_directive_def)
  then show ?thesis using directive by (simp add: rewrite_line_directive)
qed

lemma lines_ok_rewrite:
  assumes "LF \<notin> set v"
  shows "lines_ok ls \<Longrightarrow> lines_ok (map (\<lambda>l. fst (rewrite_line v l)) ls)"
proof (induction ls)
  case Nil
  show ?case by simp
next
  case (Cons l ls)
  then have l: "l \<noteq> []" "LF \<notin> set (butlast l)" "ls \<noteq> [] \<longrightarrow> last l = LF"
    and IH: "lines_ok (map (\<lambda>l. fst (rewrite_line v l)) ls)"
    by (simp_all add: lines_ok_Cons)
  have "fst (rewrite_line v l) \<noteq> [] \<and> LF \<notin> set (butlast (fst (rewrite_line v l))) \<and>
      (last l = LF \<longrightarrow> last (fst (rewrite_line v l)) = LF)"
  proof (cases rule: fst_rewrite_line_cases [where line = l and v = v])
    case other
    with l show ?thesis by simp
  next
    case (directive p r)
    with rewritten_line_shape [OF directive(1) l(1,2) assms] show ?thesis by simp
  qed
  with l(3) IH show ?case by (simp add: lines_ok_Cons)
qed

lemma rewrite_no_directive:
  assumes "version_ok v"
  shows "\<not> is_directive (fst (rewrite_line v line))"
proof (cases rule: fst_rewrite_line_cases [where line = line and v = v])
  case other
  then show ?thesis by simp
next
  case (directive p r)
  with rewritten_not_directive [OF assms directive(1)] show ?thesis by simp
qed

lemma rewrite_no_CR:
  assumes "CR \<notin> set v" and "CR \<notin> set line"
  shows "CR \<notin> set (fst (rewrite_line v line))"
proof (cases rule: fst_rewrite_line_cases [where line = line and v = v])
  case other
  with assms show ?thesis by simp
next
  case (directive p r)
  with rewritten_line_no_CR [OF directive(1) assms(2,1)] show ?thesis by simp
qed


section \<open>What UTF-8 can carry\<close>

lemma encodable_Nil [simp]: "encodable []"
  by (simp add: encodable_def)

lemma encodable_Cons [simp]: "encodable (c # cs) \<longleftrightarrow> encodable_char c \<and> encodable cs"
  by (simp add: encodable_def)

lemma encodable_append [simp]: "encodable (xs @ ys) \<longleftrightarrow> encodable xs \<and> encodable ys"
  by (simp add: encodable_def)

lemma encodable_concat: "encodable (concat ls) \<longleftrightarrow> list_all encodable ls"
  by (induction ls) simp_all

lemma encodable_char_LF [simp]: "encodable_char LF"
  by (simp add: encodable_char_def LF_def)

lemma encodable_translate_newlines: "encodable t \<Longrightarrow> encodable (translate_newlines t)"
  by (induction t rule: translate_newlines.induct) auto

lemma encodable_file_lines: "encodable content \<Longrightarrow> list_all encodable (file_lines content)"
  using encodable_translate_newlines [of content]
  by (simp add: file_lines_def encodable_concat [symmetric] concat_readlines)

lemma encodable_rewrite_line:
  assumes "encodable v" and "encodable line"
  shows "encodable (fst (rewrite_line v line))"
proof (cases rule: fst_rewrite_line_cases [where line = line and v = v])
  case other
  with assms show ?thesis by simp
next
  case (directive p r)
  with assms show ?thesis by (simp add: directive_line_def)
qed

lemma encodable_rewritten_lines:
  assumes "encodable v" and "list_all encodable ls"
  shows "list_all encodable (map (\<lambda>l. fst (rewrite_line v l)) ls)"
  using assms by (simp add: list_all_iff encodable_rewrite_line)

lemma not_encodable_rewrite_line:
  assumes "\<not> encodable v" and "is_directive line"
  shows "\<not> encodable (fst (rewrite_line v line))"
proof -
  from assms(2) obtain p r where "directive_line line p r"
    by (auto simp: is_directive_def)
  then have "fst (rewrite_line v line) = p @ v @ r"
    by (simp add: rewrite_line_directive)
  with assms(1) show ?thesis by simp
qed

lemma readback:
  assumes "LF \<notin> set v" and "CR \<notin> set v"
  shows "file_lines (concat (map (\<lambda>l. fst (rewrite_line v l)) (file_lines content)))
    = map (\<lambda>l. fst (rewrite_line v l)) (file_lines content)"
proof -
  let ?ls = "readlines (translate_newlines content)"
  let ?out = "map (\<lambda>l. fst (rewrite_line v l)) ?ls"
  have "CR \<notin> set (concat ?ls)"
    by (simp only: concat_readlines translate_newlines_no_CR not_False_eq_True)
  then have "\<forall>l\<in>set ?ls. CR \<notin> set l" by auto
  then have "CR \<notin> set (concat ?out)"
    using rewrite_no_CR [OF assms(2)] by auto
  then have "translate_newlines (concat ?out) = concat ?out"
    by (rule translate_newlines_id)
  moreover have "lines_ok ?out"
    using assms(1) lines_ok_readlines by (rule lines_ok_rewrite)
  then have "readlines (concat ?out) = ?out"
    by (rule readlines_concat)
  ultimately show ?thesis
    by (simp add: file_lines_def)
qed

lemma has_directive_file_lines:
  "has_directive content \<longleftrightarrow> (\<exists>line \<in> set (file_lines content). is_directive line)"
  by (simp add: has_directive_def file_lines_def)

lemma rewritten_content_stable:
  assumes "version_ok v"
  shows "\<not> has_directive (concat (map (\<lambda>l. fst (rewrite_line v l)) (file_lines content)))"
proof -
  from assms have "LF \<notin> set v" "CR \<notin> set v"
    by (simp_all add: version_ok_def)
  then show ?thesis
    unfolding has_directive_file_lines using rewrite_no_directive [OF assms]
    by (simp add: readback)
qed

lemma unchanged_content_lines:
  assumes "\<not> has_directive content"
  shows "map (\<lambda>l. fst (rewrite_line v l)) (file_lines content) = file_lines content"
  using assms by (intro map_rewrite_no_directive) (simp add: has_directive_file_lines)


section \<open>One file, and the whole run\<close>

lemma read_text_Some:
  "read_text w p = Some content \<longleftrightarrow> files w p = Some content \<and> encodable content"
  by (auto simp: read_text_def split: option.splits)

lemma main_unreadable: "read_text w p = None \<Longrightarrow> main v (p # ps) w = (w, Some (ReadError p))"
  by simp

lemma main_unfold:
  assumes "read_text w p = Some content"
  shows "main v (p # ps) w =
    (if has_directive content
     then (case write_file p (map (\<lambda>l. fst (rewrite_line v l)) (file_lines content)) w of
             (w', complete) \<Rightarrow> if complete then main v ps w' else (w', Some (WriteError p)))
     else main v ps w)"
  using assms
  by (simp add: process_lines_eq has_directive_def file_lines_def filter_empty_conv)

declare main.simps(2) [simp del]

lemma cut_at_first_directive:
  assumes "\<not> encodable v" and "list_all encodable ls"
  shows "takeWhile encodable (map (\<lambda>l. fst (rewrite_line v l)) ls)
    = takeWhile (\<lambda>l. \<not> is_directive l) ls"
  using assms(2)
proof (induction ls)
  case Nil
  show ?case by simp
next
  case (Cons l ls)
  show ?case
  proof (cases "is_directive l")
    case True
    then show ?thesis
      using not_encodable_rewrite_line [OF assms(1)] by simp
  next
    case False
    with Cons show ?thesis
      by (simp add: fst_rewrite_line_other)
  qed
qed

lemma main_step:
  assumes "read_text w p = Some content"
  shows "main v (p # ps) w =
    (if has_directive content
     then if encodable v
       then main v ps
         (w\<lparr>files := (files w)(p \<mapsto> concat (map (\<lambda>l. fst (rewrite_line v l)) (file_lines content))),
            written := written w @ [p]\<rparr>)
       else
         (w\<lparr>files := (files w)(p \<mapsto> concat (takeWhile (\<lambda>l. \<not> is_directive l) (file_lines content))),
            written := written w @ [p]\<rparr>,
          Some (WriteError p))
     else main v ps w)"
proof -
  let ?out = "map (\<lambda>l. fst (rewrite_line v l)) (file_lines content)"
  from assms have enc: "list_all encodable (file_lines content)"
    by (simp add: read_text_Some encodable_file_lines)
  show ?thesis
  proof (cases "encodable v")
    case True
    then have all: "list_all encodable ?out"
      using enc by (rule encodable_rewritten_lines)
    then have whole: "takeWhile encodable ?out = ?out"
      by (simp add: list_all_iff)
    show ?thesis
      unfolding main_unfold [OF assms] write_file_def whole
      using True all by simp
  next
    case False
    have cut: "takeWhile encodable ?out = takeWhile (\<lambda>l. \<not> is_directive l) (file_lines content)"
      using False enc by (rule cut_at_first_directive)
    have "has_directive content \<Longrightarrow> \<not> list_all encodable ?out"
      using not_encodable_rewrite_line [OF False]
      by (auto simp: has_directive_file_lines list_all_iff)
    then show ?thesis
      using False by (simp add: main_unfold [OF assms] write_file_def cut)
  qed
qed

lemma main_frame:
  assumes "files w p = Some content" and "\<not> has_directive content"
  shows "files (fst (main v ps w)) p = Some content \<and>
    count_list (written (fst (main v ps w))) p = count_list (written w) p"
  using assms(1)
proof (induction ps arbitrary: w)
  case Nil
  then show ?case by simp
next
  case (Cons q qs)
  show ?case
  proof (cases "read_text w q")
    case None
    with Cons.prems show ?thesis by (simp add: main_unreadable)
  next
    case (Some c)
    show ?thesis
    proof (cases "has_directive c")
      case False
      with Some Cons show ?thesis by (simp add: main_step)
    next
      case True
      with Some Cons.prems assms(2) have "q \<noteq> p"
        by (auto simp: read_text_Some)
      show ?thesis
      proof (cases "encodable v")
        case enc: True
        let ?w = "w\<lparr>files := (files w)(q \<mapsto> concat (map (\<lambda>l. fst (rewrite_line v l)) (file_lines c))),
            written := written w @ [q]\<rparr>"
        have "files ?w p = Some content"
          using \<open>q \<noteq> p\<close> Cons.prems by simp
        then have "files (fst (main v qs ?w)) p = Some content \<and>
            count_list (written (fst (main v qs ?w))) p = count_list (written ?w) p"
          by (rule Cons.IH)
        moreover have "count_list (written ?w) p = count_list (written w) p"
          using \<open>q \<noteq> p\<close> by simp
        moreover have "main v (q # qs) w = main v qs ?w"
          using Some True enc by (simp add: main_step)
        ultimately show ?thesis by simp
      next
        case False
        with Some True \<open>q \<noteq> p\<close> Cons.prems show ?thesis
          by (simp add: main_step)
      qed
    qed
  qed
qed

lemma main_untouched: "p \<notin> set ps \<Longrightarrow> files (fst (main v ps w)) p = files w p"
proof (induction ps arbitrary: w)
  case Nil
  show ?case by simp
next
  case (Cons q qs)
  then have "q \<noteq> p" and IH: "files (fst (main v qs w')) p = files w' p" for w'
    by auto
  show ?case
  proof (cases "read_text w q")
    case None
    then show ?thesis by (simp add: main_unreadable)
  next
    case (Some c)
    with \<open>q \<noteq> p\<close> show ?thesis
      by (simp add: main_step IH)
  qed
qed

lemma main_twice:
  assumes "version_ok v"
  shows "main v ps (fst (main v ps w)) = main v ps w"
proof (induction ps arbitrary: w)
  case Nil
  show ?case by simp
next
  case (Cons p ps)
  from assms have enc: "encodable v"
    by (simp add: version_ok_def)
  show ?case
  proof (cases "read_text w p")
    case None
    then show ?thesis by (simp add: main_unreadable)
  next
    case (Some c)
    let ?out = "map (\<lambda>l. fst (rewrite_line v l)) (file_lines c)"
    define w' where "w' = (if has_directive c
      then w\<lparr>files := (files w)(p \<mapsto> concat ?out), written := written w @ [p]\<rparr> else w)"
    define c' where "c' = (if has_directive c then concat ?out else c)"
    have first: "main v (p # ps) w = main v ps w'"
      using Some enc by (simp add: main_step w'_def)
    from Some have c: "files w p = Some c" "encodable c"
      by (simp_all add: read_text_Some)
    have "list_all encodable ?out"
      using enc c(2) by (intro encodable_rewritten_lines encodable_file_lines)
    with c(2) have enc': "encodable c'"
      by (simp add: c'_def encodable_concat)
    have "files w' p = Some c'"
      using c(1) by (simp add: w'_def c'_def)
    moreover have stable: "\<not> has_directive c'"
      using rewritten_content_stable [OF assms, of c] by (simp add: c'_def)
    ultimately have "files (fst (main v ps w')) p = Some c'"
      using main_frame by blast
    with enc' have "read_text (fst (main v ps w')) p = Some c'"
      by (simp add: read_text_Some)
    then have "main v (p # ps) (fst (main v ps w')) = main v ps (fst (main v ps w'))"
      using stable by (simp add: main_step)
    also have "\<dots> = main v ps w'"
      by (rule Cons.IH)
    finally show ?thesis
      by (simp only: first)
  qed
qed


lemma is_directive_fullmatch: "is_directive line \<longleftrightarrow> fullmatch line \<noteq> None"
  by (simp add: fullmatch_None_iff)

text \<open>
  Claim C5. For a file in which no line matches the directive grammar the rewriter performs
  no write and the file stays as it is; a file is overwritten, in full and with the
  accumulated lines, only when at least one line changed. The first half holds
  (\<open>main_frame\<close>, \<open>main_step\<close>). The help of the argument says that the version can be
  anything, and a version that UTF-8 cannot carry, here the lone surrogate U+DCFF that a
  byte of the command line outside UTF-8 becomes, makes every changed line one that
  cannot be written: the file is emptied, written up to its first directive line and
  left so, and the run stops. The file is then neither as it was nor overwritten in full.
\<close>

theorem unencodable_version_cuts_file:
  "main [56575] [''a.rst'']
     \<lparr>files = [''a.rst'' \<mapsto> ustr ''Title'' @ [LF] @ ustr ''.. versionadded:: next'' @ [LF]],
      written = []\<rparr>
   = (\<lparr>files = [''a.rst'' \<mapsto> ustr ''Title'' @ [LF]], written = [''a.rst'']\<rparr>,
      Some (WriteError ''a.rst''))"
  by (simp add: main.simps read_text_def write_file_def encodable_def encodable_char_def
      process_lines_def loop_body_def rewrite_line_def fullmatch_def match_before_def
      strip_prefix_def directive_names_def ustr_def is_space_def LF_def CR_def)


section \<open>A second run\<close>

text \<open>
  Claim C4, as stated: for every file content and every target version string a second run
  with the same version changes no line and leaves every file as the first run left it.
  The version may be any string. With the version \<^verbatim>\<open>next1\<close> the first run turns
  \<^verbatim>\<open>.. versionadded:: next\<close> into \<^verbatim>\<open>.. versionadded:: next1\<close>, which matches again, and the
  second run writes \<^verbatim>\<open>.. versionadded:: next11\<close>.
\<close>

theorem second_run_rewrites_again:
  "main (ustr ''next1'') [''a.rst'']
     \<lparr>files = [''a.rst'' \<mapsto> ustr ''.. versionadded:: next'' @ [LF]], written = []\<rparr>
   = (\<lparr>files = [''a.rst'' \<mapsto> ustr ''.. versionadded:: next1'' @ [LF]],
       written = [''a.rst'']\<rparr>, None) \<and>
   main (ustr ''next1'') [''a.rst'']
     \<lparr>files = [''a.rst'' \<mapsto> ustr ''.. versionadded:: next1'' @ [LF]], written = [''a.rst'']\<rparr>
   = (\<lparr>files = [''a.rst'' \<mapsto> ustr ''.. versionadded:: next11'' @ [LF]],
       written = [''a.rst'', ''a.rst'']\<rparr>, None)"
  by (simp add: main.simps read_text_def write_file_def encodable_def encodable_char_def
      process_lines_def loop_body_def rewrite_line_def fullmatch_def match_before_def
      strip_prefix_def directive_names_def ustr_def is_space_def LF_def CR_def)

text \<open>
  Claim C4, amended. For every file content and every target version string that UTF-8 can
  carry, that holds no line break and that, after its leading whitespace, neither begins
  with \<^verbatim>\<open>next\<close> nor is a beginning of \<^verbatim>\<open>next\<close>, running the rewriter twice in succession with
  the same version is idempotent: what the first run writes has no line left for the
  second run to change, and the second run ends as the first did, with every file as the
  first run left it and nothing written.
\<close>

theorem second_run_is_noop:
  "version_ok version \<longrightarrow>
     snd (process_lines version (file_lines
            (concat (fst (process_lines version (file_lines content)))))) = 0 \<and>
     main version ps (fst (main version ps w)) = main version ps w"
proof (intro impI conjI)
  assume ok: "version_ok version"
  have out: "fst (process_lines version (file_lines content))
      = map (\<lambda>l. fst (rewrite_line version l)) (file_lines content)"
    by (simp add: process_lines_eq)
  have "\<not> has_directive (concat (fst (process_lines version (file_lines content))))"
    unfolding out using ok by (rule rewritten_content_stable)
  then show "snd (process_lines version (file_lines
      (concat (fst (process_lines version (file_lines content)))))) = 0"
    by (simp add: file_lines_def num_changed_zero_iff)
  show "main version ps (fst (main version ps w)) = main version ps w"
    using ok by (rule main_twice)
qed

text \<open>The version \<^verbatim>\<open>3.13\<close> on two files with one directive line each.\<close>

theorem second_run_is_noop_witness:
  "version_ok (ustr ''3.13'') \<and>
   main (ustr ''3.13'') [''a.rst'', ''b.rst'']
     \<lparr>files = [''a.rst'' \<mapsto> ustr ''.. versionadded:: next'' @ [LF],
               ''b.rst'' \<mapsto> ustr ''.. deprecated:: next'' @ [LF]],
      written = []\<rparr>
   = (\<lparr>files = [''a.rst'' \<mapsto> ustr ''.. versionadded:: 3.13'' @ [LF],
                ''b.rst'' \<mapsto> ustr ''.. deprecated:: 3.13'' @ [LF]],
       written = [''a.rst'', ''b.rst'']\<rparr>, None) \<and>
   main (ustr ''3.13'') [''a.rst'', ''b.rst'']
     \<lparr>files = [''a.rst'' \<mapsto> ustr ''.. versionadded:: 3.13'' @ [LF],
               ''b.rst'' \<mapsto> ustr ''.. deprecated:: 3.13'' @ [LF]],
      written = [''a.rst'', ''b.rst'']\<rparr>
   = (\<lparr>files = [''a.rst'' \<mapsto> ustr ''.. versionadded:: 3.13'' @ [LF],
                ''b.rst'' \<mapsto> ustr ''.. deprecated:: 3.13'' @ [LF]],
       written = [''a.rst'', ''b.rst'']\<rparr>, None)"
proof -
  define v where "v = ustr ''3.13''"
  define w where
    "w = \<lparr>files = [''a.rst'' \<mapsto> ustr ''.. versionadded:: next'' @ [LF],
                   ''b.rst'' \<mapsto> ustr ''.. deprecated:: next'' @ [LF]],
          written = []\<rparr>"
  define w1 where
    "w1 = \<lparr>files = [''a.rst'' \<mapsto> ustr ''.. versionadded:: 3.13'' @ [LF],
                    ''b.rst'' \<mapsto> ustr ''.. deprecated:: 3.13'' @ [LF]],
            written = [''a.rst'', ''b.rst'']\<rparr>"
  have ok: "version_ok v"
    by (simp add: v_def version_ok_def encodable_def encodable_char_def ustr_def is_space_def
        LF_def CR_def)
  have first: "main v [''a.rst'', ''b.rst''] w = (w1, None)"
    by (simp add: v_def w_def w1_def main.simps read_text_def write_file_def encodable_def
        encodable_char_def process_lines_def loop_body_def rewrite_line_def fullmatch_def
        match_before_def strip_prefix_def directive_names_def ustr_def is_space_def LF_def
        CR_def fun_upd_twist)
  have "main v [''a.rst'', ''b.rst''] (fst (main v [''a.rst'', ''b.rst''] w))
      = main v [''a.rst'', ''b.rst''] w"
    using second_run_is_noop [of v "[]" "[''a.rst'', ''b.rst'']" w] ok by simp
  then have "main v [''a.rst'', ''b.rst''] w1 = (w1, None)"
    by (simp add: first)
  with ok first show ?thesis
    by (simp only: v_def w_def w1_def simp_thms)
qed


section \<open>The rewritten file, line for line\<close>

text \<open>
  Claim C10, as stated: a rewritten file has the same number of lines as the input and
  differs from it only at lines that matched the directive grammar. The version may hold a
  line break: with \<^verbatim>\<open>3\n13\<close> a file of one line is rewritten to a file of two. And a file is
  read with \<^verbatim>\<open>\r\n\<close> taken for \<^verbatim>\<open>\n\<close> and written with \<^verbatim>\<open>\n\<close>: when one line of a file with
  \<^verbatim>\<open>\r\n\<close> endings matches, the lines that do not match lose their \<^verbatim>\<open>\r\<close> as well.
\<close>

theorem rewritten_file_differs_elsewhere:
  "main (ustr ''3'' @ [LF] @ ustr ''13'') [''a.rst'']
     \<lparr>files = [''a.rst'' \<mapsto> ustr ''.. versionadded:: next'' @ [LF]], written = []\<rparr>
   = (\<lparr>files = [''a.rst'' \<mapsto> ustr ''.. versionadded:: 3'' @ [LF] @ ustr ''13'' @ [LF]],
       written = [''a.rst'']\<rparr>, None) \<and>
   file_lines (ustr ''.. versionadded:: next'' @ [LF]) = [ustr ''.. versionadded:: next'' @ [LF]] \<and>
   file_lines (ustr ''.. versionadded:: 3'' @ [LF] @ ustr ''13'' @ [LF])
     = [ustr ''.. versionadded:: 3'' @ [LF], ustr ''13'' @ [LF]] \<and>
   main (ustr ''3.13'') [''b.rst'']
     \<lparr>files = [''b.rst'' \<mapsto> ustr ''Title'' @ [CR, LF] @ ustr ''.. versionadded:: next'' @ [CR, LF]],
      written = []\<rparr>
   = (\<lparr>files = [''b.rst'' \<mapsto> ustr ''Title'' @ [LF] @ ustr ''.. versionadded:: 3.13'' @ [LF]],
       written = [''b.rst'']\<rparr>, None)"
  by (simp add: main.simps read_text_def write_file_def encodable_def encodable_char_def
      file_lines_def process_lines_def loop_body_def rewrite_line_def fullmatch_def
      match_before_def strip_prefix_def directive_names_def ustr_def is_space_def LF_def CR_def)

lemma main_append:
  "main v (qs @ rs) w =
     (case main v qs w of (w', None) \<Rightarrow> main v rs w' | (w', Some e) \<Rightarrow> (w', Some e))"
proof (induction qs arbitrary: w)
  case Nil
  show ?case by simp
next
  case (Cons q qs)
  show ?case
  proof (cases "read_text w q")
    case None
    then show ?thesis by (simp add: main_unreadable)
  next
    case (Some c)
    then show ?thesis by (simp add: main_step Cons.IH)
  qed
qed

text \<open>
  Claim C10, amended. For every processed file the rewriter appends exactly one output line
  per input line, in the original order, to the accumulated output. When the target
  version holds no line break and UTF-8 can carry it, the file as the run leaves it,
  read again, has the same number of lines as the input, each the rewrite of the input
  line at its place, and it differs from the lines read from the input only at lines
  that match the directive grammar. The lines of the input are those that reading
  yields, with \<^verbatim>\<open>\r\n\<close> and \<^verbatim>\<open>\r\<close> taken for \<^verbatim>\<open>\n\<close>. A processed file is one that the run
  reaches, the files \<open>qs\<close> before it raising nothing, and the glob yields it once.
\<close>

theorem rewritten_file_line_for_line:
  "length (fst (process_lines version ls)) = length ls \<and>
   (\<forall>i<length ls. fst (process_lines version ls) ! i = fst (rewrite_line version (ls ! i))) \<and>
   (read_text w p = Some content \<and> p \<notin> set qs \<and> p \<notin> set rs \<and>
    snd (main version qs w) = None \<and>
    encodable version \<and> LF \<notin> set version \<and> CR \<notin> set version \<longrightarrow>
      (\<exists>content'.
         files (fst (main version (qs @ p # rs) w)) p = Some content' \<and>
         file_lines content' = map (\<lambda>l. fst (rewrite_line version l)) (file_lines content) \<and>
         (\<forall>i<length (file_lines content).
            file_lines content' ! i \<noteq> file_lines content ! i \<longrightarrow>
            is_directive (file_lines content ! i))))"
proof (intro conjI impI)
  show "length (fst (process_lines version ls)) = length ls"
    by (simp add: process_lines_eq)
  show "\<forall>i<length ls. fst (process_lines version ls) ! i = fst (rewrite_line version (ls ! i))"
    by (simp add: process_lines_eq)
next
  assume a: "read_text w p = Some content \<and> p \<notin> set qs \<and> p \<notin> set rs \<and>
    snd (main version qs w) = None \<and>
    encodable version \<and> LF \<notin> set version \<and> CR \<notin> set version"
  let ?out = "map (\<lambda>l. fst (rewrite_line version l)) (file_lines content)"
  define w0 where "w0 = fst (main version qs w)"
  define w' where "w' = (if has_directive content
    then w0\<lparr>files := (files w0)(p \<mapsto> concat ?out), written := written w0 @ [p]\<rparr> else w0)"
  define c' where "c' = (if has_directive content then concat ?out else content)"
  have "main version qs w = (w0, None)"
    using a by (simp add: w0_def prod_eq_iff)
  then have reach: "main version (qs @ p # rs) w = main version (p # rs) w0"
    by (simp add: main_append)
  have "files w0 p = files w p"
    unfolding w0_def using a by (intro main_untouched) simp
  with a have r: "read_text w0 p = Some content"
    by (simp add: read_text_def)
  then have "main version (p # rs) w0 = main version rs w'"
    using a by (simp add: main_step w'_def)
  moreover have "files (fst (main version rs w')) p = files w' p"
    using a by (intro main_untouched) simp
  moreover have "files w' p = Some c'"
    using r by (simp add: w'_def c'_def read_text_Some)
  ultimately have 1: "files (fst (main version (qs @ p # rs) w)) p = Some c'"
    using reach by simp
  have 2: "file_lines c' = ?out"
    using a by (simp add: c'_def readback unchanged_content_lines)
  have 3: "\<forall>i<length (file_lines content).
      file_lines c' ! i \<noteq> file_lines content ! i \<longrightarrow> is_directive (file_lines content ! i)"
    unfolding 2 using fst_rewrite_line_other [of _ version] by auto
  from 1 2 3 show "\<exists>content'.
      files (fst (main version (qs @ p # rs) w)) p = Some content' \<and>
      file_lines content' = ?out \<and>
      (\<forall>i<length (file_lines content).
         file_lines content' ! i \<noteq> file_lines content ! i \<longrightarrow>
         is_directive (file_lines content ! i))"
    by blast
qed

text \<open>
  A file of three lines with \<^verbatim>\<open>\r\n\<close> endings, the last line without an ending, of which
  the second is a directive line; one file is processed before it and one after it.
\<close>

theorem rewritten_file_line_for_line_witness:
  "read_text
     \<lparr>files = [''a.rst'' \<mapsto> ustr ''Title'' @ [CR, LF] @ ustr ''.. versionadded:: next''
                 @ [CR, LF] @ ustr ''Text'',
               ''b.rst'' \<mapsto> ustr ''.. deprecated:: next'' @ [LF]],
      written = []\<rparr> ''a.rst''
   = Some (ustr ''Title'' @ [CR, LF] @ ustr ''.. versionadded:: next'' @ [CR, LF] @ ustr ''Text'') \<and>
   snd (main (ustr ''3.13'') [''b.rst'']
     \<lparr>files = [''a.rst'' \<mapsto> ustr ''Title'' @ [CR, LF] @ ustr ''.. versionadded:: next''
                 @ [CR, LF] @ ustr ''Text'',
               ''b.rst'' \<mapsto> ustr ''.. deprecated:: next'' @ [LF]],
      written = []\<rparr>) = None \<and>
   encodable (ustr ''3.13'') \<and> LF \<notin> set (ustr ''3.13'') \<and> CR \<notin> set (ustr ''3.13'') \<and>
   (\<exists>content'.
      files (fst (main (ustr ''3.13'') [''b.rst'', ''a.rst'', ''c.rst'']
        \<lparr>files = [''a.rst'' \<mapsto> ustr ''Title'' @ [CR, LF] @ ustr ''.. versionadded:: next''
                    @ [CR, LF] @ ustr ''Text'',
                  ''b.rst'' \<mapsto> ustr ''.. deprecated:: next'' @ [LF]],
         written = []\<rparr>)) ''a.rst'' = Some content' \<and>
      file_lines content'
        = [ustr ''Title'' @ [LF], ustr ''.. versionadded:: 3.13'' @ [LF], ustr ''Text''])"
proof -
  define v where "v = ustr ''3.13''"
  define c where
    "c = ustr ''Title'' @ [CR, LF] @ ustr ''.. versionadded:: next'' @ [CR, LF] @ ustr ''Text''"
  define w where
    "w = \<lparr>files = [''a.rst'' \<mapsto> c, ''b.rst'' \<mapsto> ustr ''.. deprecated:: next'' @ [LF]],
          written = []\<rparr>"
  have r: "read_text w ''a.rst'' = Some c"
    by (simp add: w_def c_def read_text_def encodable_def encodable_char_def ustr_def
        LF_def CR_def)
  have v: "encodable v" "LF \<notin> set v" "CR \<notin> set v"
    by (simp_all add: v_def encodable_def encodable_char_def ustr_def LF_def CR_def)
  have b: "snd (main v [''b.rst''] w) = None"
    by (simp add: v_def w_def main.simps read_text_def write_file_def encodable_def
        encodable_char_def process_lines_def loop_body_def rewrite_line_def fullmatch_def
        match_before_def strip_prefix_def directive_names_def ustr_def is_space_def LF_def
        CR_def)
  have ls: "file_lines c
      = [ustr ''Title'' @ [LF], ustr ''.. versionadded:: next'' @ [LF], ustr ''Text'']"
    by (simp add: c_def file_lines_def ustr_def LF_def CR_def)
  have out: "map (\<lambda>l. fst (rewrite_line v l)) (file_lines c)
      = [ustr ''Title'' @ [LF], ustr ''.. versionadded:: 3.13'' @ [LF], ustr ''Text'']"
    unfolding ls
    by (simp add: v_def rewrite_line_def fullmatch_def match_before_def strip_prefix_def
        directive_names_def ustr_def is_space_def LF_def)
  have "\<exists>content'. files (fst (main v ([''b.rst''] @ ''a.rst'' # [''c.rst'']) w)) ''a.rst''
        = Some content' \<and>
      file_lines content' = map (\<lambda>l. fst (rewrite_line v l)) (file_lines c)"
    using rewritten_file_line_for_line [of v "[]" w "''a.rst''" c "[''b.rst'']" "[''c.rst'']"]
      r v b by auto
  then have "\<exists>content'. files (fst (main v [''b.rst'', ''a.rst'', ''c.rst''] w)) ''a.rst''
        = Some content' \<and>
      file_lines content'
        = [ustr ''Title'' @ [LF], ustr ''.. versionadded:: 3.13'' @ [LF], ustr ''Text'']"
    by (simp only: out append_Cons append_Nil)
  with r v b show ?thesis
    by (simp only: v_def c_def w_def simp_thms)
qed


section \<open>What the check does\<close>

declare decimal.simps [simp del]

lemma rc1_archive_path:
  "archive_path \<lparr>release = \<lparr>major = 3, minor = 13, micro = 0, level = Candidate, serial = 1\<rparr>,
                  git_repo = ustr ''/tmp''\<rparr>
     = ustr ''/tmp/3.13.0rc1/docs/python-3.13.0rc1-docs-html.tar.bz2''"
  by (simp add: archive_path_def to_string_def decimal.simps ustr_def)

text \<open>
  Claim C6. When the check finds the unreleased marker with the exact current tag, such as
  \<^verbatim>\<open>New in 3.13.0rc1 (unreleased)\<close>, in the front page of the documentation, it asks the
  operator exactly once: the answer \<^verbatim>\<open>no\<close>, or any answer other than \<^verbatim>\<open>yes\<close>, raises a failure
  that blocks the release, and the answer \<^verbatim>\<open>yes\<close> lets the check pass. When the page holds
  only the released form, such as \<^verbatim>\<open>New in 3.13\<close>, the check passes and asks nothing.
\<close>

theorem unreleased_marker_asks_operator:
  "requires_doc_check (release db) \<and> docs (archive_path db) = Some html \<longrightarrow>
     (contains (unreleased_marker (release db)) html \<longrightarrow>
        check_doc_unreleased_version docs db (answer # rest)
          = (if answer = ustr ''yes'' then Passed else Raised OperatorDeclined, rest)) \<and>
     (\<not> contains (unreleased_marker (release db)) html \<longrightarrow>
        check_doc_unreleased_version docs db answers = (Passed, answers))"
  by (simp add: check_doc_unreleased_version_def)

text \<open>
  The three tests of the repository on the tag \<^verbatim>\<open>3.13.0rc1\<close>: the marker with the answers
  \<^verbatim>\<open>no\<close> and \<^verbatim>\<open>yes\<close>, and the released form with an answer that stays unread.
\<close>

theorem unreleased_marker_asks_operator_witness:
  "check_doc_unreleased_version
     [ustr ''/tmp/3.13.0rc1/docs/python-3.13.0rc1-docs-html.tar.bz2''
        \<mapsto> ustr ''<div>New in 3.13.0rc1 (unreleased)</div>'']
     \<lparr>release = \<lparr>major = 3, minor = 13, micro = 0, level = Candidate, serial = 1\<rparr>,
      git_repo = ustr ''/tmp''\<rparr>
     [ustr ''no'']
   = (Raised OperatorDeclined, []) \<and>
   check_doc_unreleased_version
     [ustr ''/tmp/3.13.0rc1/docs/python-3.13.0rc1-docs-html.tar.bz2''
        \<mapsto> ustr ''<div>New in 3.13.0rc1 (unreleased)</div>'']
     \<lparr>release = \<lparr>major = 3, minor = 13, micro = 0, level = Candidate, serial = 1\<rparr>,
      git_repo = ustr ''/tmp''\<rparr>
     [ustr ''yes'']
   = (Passed, []) \<and>
   check_doc_unreleased_version
     [ustr ''/tmp/3.13.0rc1/docs/python-3.13.0rc1-docs-html.tar.bz2''
        \<mapsto> ustr ''<div>New in 3.13</div>'']
     \<lparr>release = \<lparr>major = 3, minor = 13, micro = 0, level = Candidate, serial = 1\<rparr>,
      git_repo = ustr ''/tmp''\<rparr>
     [ustr ''no'']
   = (Passed, [ustr ''no''])"
proof -
  define t where "t = \<lparr>major = 3, minor = 13, micro = 0, level = Candidate, serial = 1\<rparr>"
  define db where "db = \<lparr>release = t, git_repo = ustr ''/tmp''\<rparr>"
  define path where "path = ustr ''/tmp/3.13.0rc1/docs/python-3.13.0rc1-docs-html.tar.bz2''"
  define page1 where "page1 = ustr ''<div>New in 3.13.0rc1 (unreleased)</div>''"
  define page2 where "page2 = ustr ''<div>New in 3.13</div>''"
  have req: "requires_doc_check (release db)"
    by (simp add: db_def t_def requires_doc_check_def)
  have p: "archive_path db = path"
    unfolding db_def t_def path_def by (rule rc1_archive_path)
  have m: "unreleased_marker (release db) = ustr ''New in 3.13.0rc1 (unreleased)''"
    by (simp add: db_def t_def unreleased_marker_def to_string_def decimal.simps ustr_def)
  have c1: "contains (unreleased_marker (release db)) page1"
    unfolding m by (simp add: page1_def ustr_def)
  have c2: "\<not> contains (unreleased_marker (release db)) page2"
    unfolding m by (simp add: page2_def ustr_def)
  have no: "ustr ''no'' \<noteq> ustr ''yes''"
    by (simp add: ustr_def)
  have 1: "check_doc_unreleased_version [path \<mapsto> page1] db [ustr ''no'']
      = (Raised OperatorDeclined, [])"
    using unreleased_marker_asks_operator [of db "[path \<mapsto> page1]" page1 "ustr ''no''" "[]"]
      req c1 no by (simp add: p)
  have 2: "check_doc_unreleased_version [path \<mapsto> page1] db [ustr ''yes''] = (Passed, [])"
    using unreleased_marker_asks_operator [of db "[path \<mapsto> page1]" page1 "ustr ''yes''" "[]"]
      req c1 by (simp add: p)
  have 3: "check_doc_unreleased_version [path \<mapsto> page2] db [ustr ''no'']
      = (Passed, [ustr ''no''])"
    using unreleased_marker_asks_operator [of db "[path \<mapsto> page2]" page2 _ _ "[ustr ''no'']"]
      req c2 by (simp add: p)
  from 1 2 3 show ?thesis
    by (simp only: t_def db_def path_def page1_def page2_def simp_thms)
qed

text \<open>
  Claim C7. For every release state whose tag is an alpha pre-release the check is a no-op:
  it returns without raising and without asking, whether a documentation archive is there
  or not.
\<close>

theorem alpha_check_is_noop:
  "level (release db) = Alpha \<longrightarrow>
     check_doc_unreleased_version docs db answers = (Passed, answers)"
  by (simp add: check_doc_unreleased_version_def requires_doc_check_def)

text \<open>The tag \<^verbatim>\<open>3.13.0a1\<close> of the test, in a tree without any archive.\<close>

theorem alpha_check_is_noop_witness:
  "parse_tag (ustr ''3.13.0a1'')
     = Inr \<lparr>major = 3, minor = 13, micro = 0, level = Alpha, serial = 1\<rparr> \<and>
   check_doc_unreleased_version Map.empty
     \<lparr>release = \<lparr>major = 3, minor = 13, micro = 0, level = Alpha, serial = 1\<rparr>,
      git_repo = ustr ''/tmp''\<rparr> []
   = (Passed, [])"
proof -
  have "parse_tag (ustr ''3.13.0a1'')
      = Inr \<lparr>major = 3, minor = 13, micro = 0, level = Alpha, serial = 1\<rparr>"
    by (simp add: parse_tag_def take_number_def number_def is_digit_def strip_prefix_def
        parse_level_def ustr_def)
  then show ?thesis
    using alpha_check_is_noop [of "\<lparr>release = \<lparr>major = 3, minor = 13, micro = 0, level = Alpha,
        serial = 1\<rparr>, git_repo = ustr ''/tmp''\<rparr>" Map.empty "[]"]
    by simp
qed

text \<open>
  Claim C8. For every release state whose tag is not exempt from the check, a release
  candidate for one, the check raises a precondition failure when the archive
  \<^verbatim>\<open>python-<tag>-docs-html.tar.bz2\<close> under the versioned directory is absent.
\<close>

theorem missing_archive_fails:
  "requires_doc_check (release db) \<and> docs (archive_path db) = None \<longrightarrow>
     check_doc_unreleased_version docs db answers = (Raised PreconditionMissing, answers)"
  by (simp add: check_doc_unreleased_version_def)

text \<open>The tag \<^verbatim>\<open>3.13.0rc1\<close> of the test, in a tree without any archive.\<close>

theorem missing_archive_fails_witness:
  "requires_doc_check \<lparr>major = 3, minor = 13, micro = 0, level = Candidate, serial = 1\<rparr> \<and>
   archive_path \<lparr>release = \<lparr>major = 3, minor = 13, micro = 0, level = Candidate, serial = 1\<rparr>,
                  git_repo = ustr ''/tmp''\<rparr>
     = ustr ''/tmp/3.13.0rc1/docs/python-3.13.0rc1-docs-html.tar.bz2'' \<and>
   check_doc_unreleased_version Map.empty
     \<lparr>release = \<lparr>major = 3, minor = 13, micro = 0, level = Candidate, serial = 1\<rparr>,
      git_repo = ustr ''/tmp''\<rparr> []
   = (Raised PreconditionMissing, [])"
  using missing_archive_fails [of "\<lparr>release = \<lparr>major = 3, minor = 13, micro = 0,
      level = Candidate, serial = 1\<rparr>, git_repo = ustr ''/tmp''\<rparr>" Map.empty "[]"]
    rc1_archive_path
  by (simp add: requires_doc_check_def)

section \<open>Parsing and printing a tag, and the order of tags\<close>

lemma decimal_unfold:
  "decimal n = (if 10 \<le> n then decimal (n div 10) @ [n mod 10 + 48] else [n + 48])"
  by (rule decimal.simps)

lemma is_number_decimal: "is_number (decimal n)"
proof (induction n rule: decimal.induct)
  case (1 n)
  have last: "is_digit (n mod 10 + 48)"
    unfolding is_digit_def by linarith
  show ?case
  proof (cases "10 \<le> n")
    case True
    with 1 last show ?thesis
      by (subst decimal_unfold) (simp add: is_number_def)
  next
    case False
    then show ?thesis
      by (subst decimal_unfold) (simp add: is_number_def is_digit_def)
  qed
qed

lemma number_snoc: "number (ds @ [c]) = 10 * number ds + (c - 48)"
  by (simp add: number_def)

lemma number_decimal: "number (decimal n) = n"
proof (induction n rule: decimal.induct)
  case (1 n)
  show ?case
  proof (cases "10 \<le> n")
    case True
    with 1 show ?thesis
      by (subst decimal_unfold) (simp add: number_snoc)
  next
    case False
    then show ?thesis
      by (subst decimal_unfold) (simp add: number_def)
  qed
qed

lemma take_number_complete:
  assumes "is_number x" and "rest = [] \<or> \<not> is_digit (hd rest)"
  shows "take_number (x @ rest) = Some (number x, rest)"
proof -
  from assms(1) have x: "x \<noteq> []" "\<forall>c\<in>set x. is_digit c"
    by (simp_all add: is_number_def list_all_iff)
  from assms(2) have "takeWhile is_digit rest = []" "dropWhile is_digit rest = rest"
    by (simp_all add: takeWhile_eq_Nil_iff dropWhile_eq_self_iff)
  with x have "takeWhile is_digit (x @ rest) = x" "dropWhile is_digit (x @ rest) = rest"
    by simp_all
  with x(1) show ?thesis by (simp add: take_number_def)
qed

lemma take_number_sound:
  assumes "take_number s = Some (n, rest)"
  shows "\<exists>x. is_number x \<and> s = x @ rest \<and> n = number x"
proof -
  from assms have "takeWhile is_digit s \<noteq> []" "n = number (takeWhile is_digit s)"
      "rest = dropWhile is_digit s"
    by (auto simp: take_number_def split: if_splits)
  moreover have "list_all is_digit (takeWhile is_digit s)"
    by (induction s) auto
  ultimately show ?thesis
    by (intro exI [of _ "takeWhile is_digit s"]) (simp add: is_number_def)
qed

lemma level_text_start:
  "lvl \<noteq> Final \<Longrightarrow> level_text lvl @ n \<noteq> [] \<and> \<not> is_digit (hd (level_text lvl @ n))"
  by (cases lvl) (simp_all add: ustr_def is_digit_def)

lemma parse_level_text: "lvl \<noteq> Final \<Longrightarrow> parse_level (level_text lvl @ n) = Some (lvl, n)"
  by (cases lvl) (simp_all add: parse_level_def ustr_def)

lemma parse_tag_complete:
  assumes "is_number x" "is_number y" "is_number z" and "lvl \<noteq> Final \<Longrightarrow> is_number n"
  shows "parse_tag (x @ ustr ''.'' @ y @ ustr ''.'' @ z
            @ (if lvl = Final then [] else level_text lvl @ n))
    = Inr \<lparr>major = number x, minor = number y, micro = number z, level = lvl,
           serial = (if lvl = Final then 0 else number n)\<rparr>"
proof -
  define q where "q = (if lvl = Final then [] else level_text lvl @ n)"
  define r2 where "r2 = z @ q"
  define r1 where "r1 = y @ ustr ''.'' @ r2"
  have t1: "take_number (x @ ustr ''.'' @ r1) = Some (number x, ustr ''.'' @ r1)"
    using assms(1) by (rule take_number_complete) (simp add: ustr_def is_digit_def)
  have t2: "take_number r1 = Some (number y, ustr ''.'' @ r2)"
    unfolding r1_def using assms(2) by (rule take_number_complete) (simp add: ustr_def is_digit_def)
  have "q = [] \<or> \<not> is_digit (hd q)"
    using level_text_start [of lvl n] by (simp add: q_def)
  with assms(3) have t3: "take_number r2 = Some (number z, q)"
    unfolding r2_def by (rule take_number_complete)
  have dot: "strip_prefix (ustr ''.'') (ustr ''.'' @ r) = Some r" for r
    by (simp add: strip_prefix_Some)
  show ?thesis
  proof (cases "lvl = Final")
    case True
    then have "q = []" by (simp add: q_def)
    with True t1 t2 t3 dot show ?thesis
      unfolding q_def [symmetric] r2_def [symmetric] r1_def [symmetric]
      by (simp add: parse_tag_def)
  next
    case False
    then have q: "q = level_text lvl @ n" "q \<noteq> []"
      using level_text_start [of lvl n] by (simp_all add: q_def)
    have pl: "parse_level q = Some (lvl, n)"
      unfolding q(1) using False by (rule parse_level_text)
    have "take_number (n @ []) = Some (number n, [])"
      using assms(4) [OF False] by (rule take_number_complete) simp
    then have t4: "take_number n = Some (number n, [])" by simp
    from False q(2) t1 t2 t3 t4 pl dot show ?thesis
      unfolding q_def [symmetric] r2_def [symmetric] r1_def [symmetric]
      by (simp add: parse_tag_def)
  qed
qed

lemma parse_tag_to_string:
  assumes "level t = Final \<longrightarrow> serial t = 0"
  shows "parse_tag (to_string t) = Inr t"
proof -
  have "parse_tag (decimal (major t) @ ustr ''.'' @ decimal (minor t) @ ustr ''.''
      @ decimal (micro t) @ (if level t = Final then [] else level_text (level t) @ decimal (serial t)))
    = Inr \<lparr>major = number (decimal (major t)), minor = number (decimal (minor t)),
           micro = number (decimal (micro t)), level = level t,
           serial = (if level t = Final then 0 else number (decimal (serial t)))\<rparr>"
    by (rule parse_tag_complete) (rule is_number_decimal)+
  with assms show ?thesis
    by (cases t) (auto simp: to_string_def number_decimal)
qed

lemma parse_tag_final_serial:
  assumes "parse_tag s = Inr t"
  shows "level t = Final \<longrightarrow> serial t = 0"
proof -
  have "parse_level q = Some (l, r) \<Longrightarrow> l \<noteq> Final" for q l r
    by (auto simp: parse_level_def split: if_splits)
  with assms show ?thesis
    by (auto simp: parse_tag_def split: option.splits if_splits)
qed

lemma version_grammar_parses:
  assumes "version_grammar s"
  shows "\<exists>t. parse_tag s = Inr t"
proof -
  from assms obtain x y z q where
    n: "is_number x" "is_number y" "is_number z" and
    s: "s = x @ ustr ''.'' @ y @ ustr ''.'' @ z @ q" and
    q: "q = [] \<or> (\<exists>l n. (l = ustr ''a'' \<or> l = ustr ''b'' \<or> l = ustr ''rc'') \<and> is_number n \<and> q = l @ n)"
    unfolding version_grammar_def by blast
  from q obtain lvl m where "q = (if lvl = Final then [] else level_text lvl @ m)"
      "lvl \<noteq> Final \<Longrightarrow> is_number m"
  proof (elim disjE exE conjE)
    assume "q = []"
    then show ?thesis using that [of Final] by simp
  next
    fix l m assume "is_number m" "q = l @ m" "l = ustr ''a''"
    then show ?thesis using that [of Alpha m] by simp
  next
    fix l m assume "is_number m" "q = l @ m" "l = ustr ''b''"
    then show ?thesis using that [of Beta m] by simp
  next
    fix l m assume "is_number m" "q = l @ m" "l = ustr ''rc''"
    then show ?thesis using that [of Candidate m] by simp
  qed
  with n show ?thesis
    unfolding s using parse_tag_complete [of x y z lvl m] by simp
qed

lemma parses_version_grammar:
  assumes "parse_tag s = Inr t"
  shows "version_grammar s"
proof -
  from assms obtain x s1 s2 y s3 s4 z s5 where
    p: "take_number s = Some (x, s1)" "strip_prefix (ustr ''.'') s1 = Some s2"
       "take_number s2 = Some (y, s3)" "strip_prefix (ustr ''.'') s3 = Some s4"
       "take_number s4 = Some (z, s5)" and
    q: "s5 = [] \<or> (\<exists>l s6 n. parse_level s5 = Some (l, s6) \<and> take_number s6 = Some (n, []))"
    by (auto simp: parse_tag_def split: option.splits if_splits)
  from p obtain dx dy dz where
    d: "is_number dx" "s = dx @ s1" "s1 = ustr ''.'' @ s2" "is_number dy" "s2 = dy @ s3"
       "s3 = ustr ''.'' @ s4" "is_number dz" "s4 = dz @ s5"
    using take_number_sound strip_prefix_Some by metis
  have "s5 = [] \<or> (\<exists>l n. (l = ustr ''a'' \<or> l = ustr ''b'' \<or> l = ustr ''rc'') \<and> is_number n \<and> s5 = l @ n)"
  proof (rule disjE [OF q])
    assume "s5 = []"
    then show ?thesis by simp
  next
    assume "\<exists>l s6 n. parse_level s5 = Some (l, s6) \<and> take_number s6 = Some (n, [])"
    then obtain l s6 n where l: "parse_level s5 = Some (l, s6)" "take_number s6 = Some (n, [])"
      by blast
    from l(2) have "is_number s6"
      using take_number_sound [of s6 n "[]"] by auto
    moreover from l(1) have "s5 = ustr ''rc'' @ s6 \<or> s5 = ustr ''a'' @ s6 \<or> s5 = ustr ''b'' @ s6"
      by (auto simp: parse_level_def prefix_def ustr_def split: if_splits)
    ultimately show ?thesis by blast
  qed
  with d show ?thesis
    unfolding version_grammar_def
    by (intro exI [of _ dx] exI [of _ dy] exI [of _ dz] exI [of _ s5]) simp
qed

text \<open>
  Claim C9. For every valid version string, one of the forms \<^verbatim>\<open>X.Y.ZaN\<close>, \<^verbatim>\<open>X.Y.ZbN\<close>,
  \<^verbatim>\<open>X.Y.ZrcN\<close> and \<^verbatim>\<open>X.Y.Z\<close>, parsing round-trips: the string parses, and parsing the textual
  form of the parsed tag gives the same tag again. The order of tags follows the order of
  the qualifiers: alpha before beta before release candidate before final.
\<close>

theorem tag_round_trip_and_order:
  "(version_grammar s \<longrightarrow>
      (\<exists>t. parse_tag s = Inr t \<and> parse_tag (to_string t) = parse_tag s)) \<and>
   (major a = major b \<and> minor a = minor b \<and> micro a = micro b \<and>
    level_rank (level a) < level_rank (level b) \<longrightarrow> tag_less a b) \<and>
   level_rank Alpha < level_rank Beta \<and> level_rank Beta < level_rank Candidate \<and>
   level_rank Candidate < level_rank Final"
proof (intro conjI impI)
  assume "version_grammar s"
  then obtain t where t: "parse_tag s = Inr t"
    using version_grammar_parses by blast
  then have "parse_tag (to_string t) = Inr t"
    using parse_tag_final_serial parse_tag_to_string by blast
  with t show "\<exists>t. parse_tag s = Inr t \<and> parse_tag (to_string t) = parse_tag s"
    by simp
qed (simp_all add: tag_less_def)

text \<open>
  The string \<^verbatim>\<open>03.13.0rc1\<close>, which is not the textual form of its tag, and the tags of
  \<^verbatim>\<open>3.13.0a2\<close> and \<^verbatim>\<open>3.13.0rc1\<close> in their order.
\<close>

theorem tag_round_trip_and_order_witness:
  "version_grammar (ustr ''03.13.0rc1'') \<and>
   parse_tag (ustr ''03.13.0rc1'')
     = Inr \<lparr>major = 3, minor = 13, micro = 0, level = Candidate, serial = 1\<rparr> \<and>
   parse_tag (to_string \<lparr>major = 3, minor = 13, micro = 0, level = Candidate, serial = 1\<rparr>)
     = Inr \<lparr>major = 3, minor = 13, micro = 0, level = Candidate, serial = 1\<rparr> \<and>
   parse_tag (ustr ''3.13.0a2'')
     = Inr \<lparr>major = 3, minor = 13, micro = 0, level = Alpha, serial = 2\<rparr> \<and>
   tag_less \<lparr>major = 3, minor = 13, micro = 0, level = Alpha, serial = 2\<rparr>
     \<lparr>major = 3, minor = 13, micro = 0, level = Candidate, serial = 1\<rparr>"
proof -
  define rc where "rc = \<lparr>major = 3, minor = 13, micro = 0, level = Candidate, serial = 1\<rparr>"
  define al where "al = \<lparr>major = 3, minor = 13, micro = 0, level = Alpha, serial = 2\<rparr>"
  have p: "parse_tag (ustr ''03.13.0rc1'') = Inr rc"
    by (simp add: rc_def parse_tag_def take_number_def number_def is_digit_def strip_prefix_def
        parse_level_def ustr_def)
  have pa: "parse_tag (ustr ''3.13.0a2'') = Inr al"
    by (simp add: al_def parse_tag_def take_number_def number_def is_digit_def strip_prefix_def
        parse_level_def ustr_def)
  from p have g: "version_grammar (ustr ''03.13.0rc1'')"
    by (rule parses_version_grammar)
  note inst = tag_round_trip_and_order [of "ustr ''03.13.0rc1''" al rc]
  from inst g obtain t where "parse_tag (ustr ''03.13.0rc1'') = Inr t"
      "parse_tag (to_string t) = parse_tag (ustr ''03.13.0rc1'')"
    by blast
  with p have rt: "parse_tag (to_string rc) = Inr rc"
    by simp
  have "major al = major rc \<and> minor al = minor rc \<and> micro al = micro rc \<and>
      level_rank (level al) < level_rank (level rc)"
    by (simp add: al_def rc_def)
  with inst have "tag_less al rc"
    by blast
  with g p rt pa show ?thesis
    by (simp only: rc_def al_def simp_thms)
qed

end
